theory Spec2Isabelle
  imports Complex_Main "HOL-Library.Word"
begin

unbundle bit_operations_syntax

section \<open>Floating-point values\<close>

text \<open>
  The library computes with C++ \<^verbatim>\<open>float\<close>, the IEEE 754 binary32 format. A \<open>float\<close> is
  modelled as a real number or one of the special values the code relies on: the two
  infinities (initial extents, initial best distance, an unbounded search radius, overflow)
  and NaN (the sentinel point, invalid operations). Every addition, subtraction,
  multiplication and division rounds its exact result to binary32 with \<open>round32\<close>: to the
  nearest value with a 24-bit significand, ties to the even significand, with gradual
  underflow below \<open>2\<^sup>-\<^sup>1\<^sup>2\<^sup>6\<close> (the spacing there is \<open>2\<^sup>-\<^sup>1\<^sup>4\<^sup>9\<close>) and overflow to an infinity
  when the rounded magnitude reaches \<open>2\<^sup>1\<^sup>2\<^sup>8\<close>. Negation, absolute value and the comparisons
  are exact. NaN propagates through arithmetic and makes every ordered comparison false.
  Each operation is rounded on its own (no fused multiply-add, no wider intermediate
  format). The sign of zero is not modelled: no comparison of the library observes it, and
  the only zero divisors that can occur are sums of squares, which are \<open>+0\<close>.
\<close>

subsection \<open>Rounding to binary32\<close>

text \<open>\<open>rne m\<close> is the integer nearest to \<open>m\<close>, the even one of the two when \<open>m\<close> lies halfway.\<close>

definition rneFrac :: "int \<Rightarrow> real \<Rightarrow> int" where
  "rneFrac f r = (if r < 1/2 then f else if 1/2 < r then f + 1 else if even f then f else f + 1)"

definition rne :: "real \<Rightarrow> int" where
  "rne m = rneFrac \<lfloor>m\<rfloor> (m - of_int \<lfloor>m\<rfloor>)"

text \<open>
  The binary exponent used for a magnitude \<open>m\<close>: the largest \<open>e\<close> from \<open>-126\<close> to \<open>127\<close> with
  \<open>2\<^sup>e \<le> m\<close>, and \<open>-126\<close> for the subnormal magnitudes below \<open>2\<^sup>-\<^sup>1\<^sup>2\<^sup>6\<close>. It is found by bisection
  of the range of exponents.
\<close>

function expoSearch :: "int \<Rightarrow> int \<Rightarrow> real \<Rightarrow> int" where
  "expoSearch lo hi m =
    (if hi - lo \<le> 1 then lo
     else if 2 powi ((lo + hi) div 2) \<le> m then expoSearch ((lo + hi) div 2) hi m
     else expoSearch lo ((lo + hi) div 2) m)"
  by pat_completeness auto
termination
  by (relation "measure (\<lambda>(lo, hi, m). nat (hi - lo))") auto

declare expoSearch.simps [simp del]

definition expo32 :: "real \<Rightarrow> int" where
  "expo32 m = expoSearch (-126) 128 m"

text \<open>The multiple of the spacing \<open>q\<close> nearest to the magnitude \<open>m\<close>.\<close>

definition roundTo :: "real \<Rightarrow> real \<Rightarrow> real" where
  "roundTo q m = of_int (rne (m / q)) * q"

datatype float = is_Fin: Fin (real_of: real) | PInf | NInf | NaN

text \<open>A rounded magnitude with its sign: an infinity from \<open>2\<^sup>1\<^sup>2\<^sup>8\<close> on.\<close>

definition pack32 :: "bool \<Rightarrow> real \<Rightarrow> float" where
  "pack32 neg v =
    (if 2 powi 128 \<le> v then (if neg then NInf else PInf) else Fin (if neg then - v else v))"

definition round32 :: "real \<Rightarrow> float" where
  "round32 r = pack32 (r < 0) (roundTo (2 powi (expo32 \<bar>r\<bar> - 23)) \<bar>r\<bar>)"

text \<open>The rounded magnitude of \<open>round32\<close>.\<close>

definition roundMag :: "real \<Rightarrow> real" where
  "roundMag m = roundTo (2 powi (expo32 m - 23)) m"

subsection \<open>Arithmetic and comparisons\<close>

instantiation float :: "{plus, uminus, minus, times, inverse, abs, ord}"
begin

fun plus_float :: "float \<Rightarrow> float \<Rightarrow> float" where
  "plus_float NaN _ = NaN"
| "plus_float _ NaN = NaN"
| "plus_float PInf NInf = NaN"
| "plus_float NInf PInf = NaN"
| "plus_float PInf _ = PInf"
| "plus_float _ PInf = PInf"
| "plus_float NInf _ = NInf"
| "plus_float _ NInf = NInf"
| "plus_float (Fin a) (Fin b) = round32 (a + b)"

fun uminus_float :: "float \<Rightarrow> float" where
  "uminus_float (Fin a) = Fin (- a)"
| "uminus_float PInf = NInf"
| "uminus_float NInf = PInf"
| "uminus_float NaN = NaN"

definition minus_float :: "float \<Rightarrow> float \<Rightarrow> float" where
  "minus_float a b = a + (- b)"

fun times_float :: "float \<Rightarrow> float \<Rightarrow> float" where
  "times_float NaN _ = NaN"
| "times_float _ NaN = NaN"
| "times_float (Fin a) (Fin b) = round32 (a * b)"
| "times_float (Fin a) PInf = (if a = 0 then NaN else if 0 < a then PInf else NInf)"
| "times_float (Fin a) NInf = (if a = 0 then NaN else if 0 < a then NInf else PInf)"
| "times_float PInf (Fin b) = (if b = 0 then NaN else if 0 < b then PInf else NInf)"
| "times_float NInf (Fin b) = (if b = 0 then NaN else if 0 < b then NInf else PInf)"
| "times_float PInf PInf = PInf"
| "times_float NInf NInf = PInf"
| "times_float PInf NInf = NInf"
| "times_float NInf PInf = NInf"

fun divide_float :: "float \<Rightarrow> float \<Rightarrow> float" where
  "divide_float NaN _ = NaN"
| "divide_float _ NaN = NaN"
| "divide_float (Fin a) (Fin b) =
     (if b = 0 then (if a = 0 then NaN else if 0 < a then PInf else NInf)
      else round32 (a / b))"
| "divide_float (Fin a) _ = Fin 0"
| "divide_float PInf (Fin b) = (if 0 \<le> b then PInf else NInf)"
| "divide_float NInf (Fin b) = (if 0 \<le> b then NInf else PInf)"
| "divide_float _ _ = NaN"

fun inverse_float :: "float \<Rightarrow> float" where
  "inverse_float (Fin a) = (if a = 0 then PInf else round32 (1 / a))"
| "inverse_float PInf = Fin 0"
| "inverse_float NInf = Fin 0"
| "inverse_float NaN = NaN"

fun abs_float :: "float \<Rightarrow> float" where
  "abs_float (Fin a) = Fin \<bar>a\<bar>"
| "abs_float PInf = PInf"
| "abs_float NInf = PInf"
| "abs_float NaN = NaN"

fun less_float :: "float \<Rightarrow> float \<Rightarrow> bool" where
  "less_float NaN _ = False"
| "less_float _ NaN = False"
| "less_float (Fin a) (Fin b) = (a < b)"
| "less_float _ NInf = False"
| "less_float NInf _ = True"
| "less_float PInf _ = False"
| "less_float _ PInf = True"

fun less_eq_float :: "float \<Rightarrow> float \<Rightarrow> bool" where
  "less_eq_float NaN _ = False"
| "less_eq_float _ NaN = False"
| "less_eq_float (Fin a) (Fin b) = (a \<le> b)"
| "less_eq_float NInf _ = True"
| "less_eq_float _ PInf = True"
| "less_eq_float _ _ = False"

instance ..

end

text \<open>\<^verbatim>\<open>a == b\<close> on floats: NaN is not equal to anything, itself included.\<close>

definition feq :: "float \<Rightarrow> float \<Rightarrow> bool" where
  "feq a b = (a = b \<and> a \<noteq> NaN)"

text \<open>\<^verbatim>\<open>std::max(a, b)\<close> is \<^verbatim>\<open>(a < b) ? b : a\<close> and \<^verbatim>\<open>std::min(a, b)\<close> is
  \<^verbatim>\<open>(b < a) ? b : a\<close>.\<close>

definition std_max :: "float \<Rightarrow> float \<Rightarrow> float" where
  "std_max a b = (if a < b then b else a)"

definition std_min :: "float \<Rightarrow> float \<Rightarrow> float" where
  "std_min a b = (if b < a then b else a)"

definition isnan :: "float \<Rightarrow> bool" where
  "isnan a = (a = NaN)"

section \<open>Float3.h\<close>

record Float3 =
  x :: float
  y :: float
  z :: float

type_synonym Point = Float3

text \<open>The constructor \<^verbatim>\<open>Float3(float n)\<close> sets all three components to \<open>n\<close>.\<close>

definition Float3_n :: "float \<Rightarrow> Float3" where
  "Float3_n n = \<lparr>x = n, y = n, z = n\<rparr>"

definition Float3_add :: "Float3 \<Rightarrow> Float3 \<Rightarrow> Float3" where
  "Float3_add l r = \<lparr>x = x l + x r, y = y l + y r, z = z l + z r\<rparr>"

definition Float3_sub :: "Float3 \<Rightarrow> Float3 \<Rightarrow> Float3" where
  "Float3_sub l r = \<lparr>x = x l - x r, y = y l - y r, z = z l - z r\<rparr>"

definition Float3_sub_scalar :: "Float3 \<Rightarrow> float \<Rightarrow> Float3" where
  "Float3_sub_scalar l r = \<lparr>x = x l - r, y = y l - r, z = z l - r\<rparr>"

definition Float3_mul_scalar :: "Float3 \<Rightarrow> float \<Rightarrow> Float3" where
  "Float3_mul_scalar l r = \<lparr>x = x l * r, y = y l * r, z = z l * r\<rparr>"

definition dot :: "Float3 \<Rightarrow> Float3 \<Rightarrow> float" where
  "dot l r = x l * x r + y l * y r + z l * z r"

definition Float3_abs :: "Float3 \<Rightarrow> Float3" where
  "Float3_abs v = \<lparr>x = \<bar>x v\<bar>, y = \<bar>y v\<bar>, z = \<bar>z v\<bar>\<rparr>"

definition sqrLength :: "Float3 \<Rightarrow> float" where
  "sqrLength v = dot v v"

definition hasNan :: "Float3 \<Rightarrow> bool" where
  "hasNan v = (isnan (x v) \<or> isnan (y v) \<or> isnan (z v))"

section \<open>The triangle closest-point solver\<close>

text \<open>
  The three \<^verbatim>\<open>std::invalid_argument\<close> exceptions of the library, named by what they
  report. \<open>VertexIndexOutOfRange\<close> stands for the unchecked \<^verbatim>\<open>vertices[id]\<close> with an id
  outside the vertex array, which the C++ leaves undefined.
\<close>

datatype error = EmptyMesh | UnsupportedArity | DegenerateTriangle | VertexIndexOutOfRange

type_synonym ClosestPointSpec = "Point \<times> float"

text \<open>
  Lines 88 to 217 of \<^verbatim>\<open>computeClosestPointOnTriangle\<close>: the parameters \<open>(s2, t2)\<close> of the
  closest point, chosen by the region of \<open>(s1, t1)\<close>.
\<close>

definition triangleParams ::
  "float \<Rightarrow> float \<Rightarrow> float \<Rightarrow> float \<Rightarrow> float \<Rightarrow> float \<Rightarrow> float \<Rightarrow> float \<Rightarrow> float \<times> float" where
  "triangleParams a b c d e det s1 t1 =
    (if s1 + t1 \<le> det then
       (if s1 < Fin 0 then
          (if t1 < Fin 0 then
             \<comment> \<open>Region 4\<close>
             (if d < Fin 0 then
                (if a \<le> - d then (Fin 1, Fin 0) else (- d / a, Fin 0))
              else
                (if Fin 0 \<le> e then (Fin 0, Fin 0)
                 else if c \<le> - e then (Fin 0, Fin 1)
                 else (Fin 0, - e / c)))
           else
             \<comment> \<open>Region 3\<close>
             (if Fin 0 \<le> e then (Fin 0, Fin 0)
              else if c \<le> - e then (Fin 0, Fin 1)
              else (Fin 0, - e / c)))
        else if t1 < Fin 0 then
          \<comment> \<open>Region 5\<close>
          (if Fin 0 \<le> d then (Fin 0, Fin 0)
           else if a \<le> - d then (Fin 1, Fin 0)
           else (- d / a, Fin 0))
        else
          \<comment> \<open>Region 0\<close>
          (let invDet = Fin 1 / det in (s1 * invDet, t1 * invDet)))
     else
       (if s1 < Fin 0 then
          \<comment> \<open>Region 2\<close>
          (let tmp0 = b + d; tmp1 = c + e in
           if tmp0 < tmp1 then
             (let num = tmp1 - tmp0; denom = a - Fin 2 * b + c;
                  s2 = (if denom \<le> num then Fin 1 else num / denom)
              in (s2, Fin 1 - s2))
           else
             (if tmp1 \<le> Fin 0 then (Fin 0, Fin 1)
              else if Fin 0 \<le> e then (Fin 0, Fin 0)
              else (Fin 0, - e / c)))
        else if t1 < Fin 0 then
          \<comment> \<open>Region 6\<close>
          (let tmp0 = b + e; tmp1 = a + d in
           if tmp0 < tmp1 then
             (let num = tmp1 - tmp0; denom = a - Fin 2 * b + c;
                  t2 = (if denom \<le> num then Fin 1 else num / denom)
              in (Fin 1 - s1, t2))
           else
             (if tmp1 \<le> Fin 0 then (Fin 1, Fin 0)
              else if Fin 0 \<le> d then (Fin 0, Fin 0)
              else (- d / a, Fin 0)))
        else
          \<comment> \<open>Region 1\<close>
          (let num = c + e - b - d;
               s2 = (if num \<le> Fin 0 then Fin 0
                     else (let denom = a - Fin 2 * b + c in
                           if denom \<le> num then Fin 1 else num / denom))
           in (s2, Fin 1 - s2))))"

text \<open>Lines 69 to 81: the coefficients \<open>(a, b, c, d, e, det, s1, t1)\<close> of the quadratic.\<close>

definition triangleCoeffs ::
  "Point \<Rightarrow> Point \<Rightarrow> Point \<Rightarrow> Point
    \<Rightarrow> float \<times> float \<times> float \<times> float \<times> float \<times> float \<times> float \<times> float" where
  "triangleCoeffs vertex0 vertex1 vertex2 fromPoint =
    (let edge0 = Float3_sub vertex1 vertex0;
         edge1 = Float3_sub vertex2 vertex0;
         v0 = Float3_sub vertex0 fromPoint;
         a = dot edge0 edge0;
         b = dot edge0 edge1;
         c = dot edge1 edge1;
         d = dot edge0 v0;
         e = dot edge1 v0;
         det = a * c - b * b;
         s1 = b * e - c * d;
         t1 = b * d - a * e
     in (a, b, c, d, e, det, s1, t1))"

definition computeClosestPointOnTriangle ::
  "Point \<Rightarrow> Point \<Rightarrow> Point \<Rightarrow> Point \<Rightarrow> error + ClosestPointSpec" where
  "computeClosestPointOnTriangle vertex0 vertex1 vertex2 fromPoint =
    (let edge0 = Float3_sub vertex1 vertex0;
         edge1 = Float3_sub vertex2 vertex0;
         (a, b, c, d, e, det, s1, t1) = triangleCoeffs vertex0 vertex1 vertex2 fromPoint
     in if feq det (Fin 0) then Inl DegenerateTriangle
        else
          (let (s2, t2) = triangleParams a b c d e det s1 t1;
               closestPoint = Float3_add (Float3_add vertex0 (Float3_mul_scalar edge0 s2))
                                         (Float3_mul_scalar edge1 t2);
               sqrDistance = sqrLength (Float3_sub fromPoint closestPoint)
           in Inr (closestPoint, sqrDistance)))"

section \<open>Faces and the face solver\<close>

record Face =
  vertexIds :: "int list"

text \<open>
  \<^verbatim>\<open>vertices[id]\<close>. \<^verbatim>\<open>std::vector::operator[]\<close> does not check its index; an id outside the
  array is reported here as \<open>VertexIndexOutOfRange\<close>.
\<close>

definition vertexAt :: "Point list \<Rightarrow> int \<Rightarrow> error + Point" where
  "vertexAt vertices i =
    (if 0 \<le> i \<and> i < int (length vertices) then Inr (vertices ! nat i)
     else Inl VertexIndexOutOfRange)"

text \<open>An exception ends the computation: the rest runs only on a value.\<close>

definition bindE :: "error + 'a \<Rightarrow> ('a \<Rightarrow> error + 'b) \<Rightarrow> error + 'b" where
  "bindE m f = (case m of Inl err \<Rightarrow> Inl err | Inr v \<Rightarrow> f v)"

definition computeClosestPointOnFace ::
  "Face \<Rightarrow> Point list \<Rightarrow> Point \<Rightarrow> error + ClosestPointSpec" where
  "computeClosestPointOnFace face vertices queryPoint =
    (if length (vertexIds face) < 3 \<or> 4 < length (vertexIds face) then Inl UnsupportedArity
     else
       bindE (vertexAt vertices (vertexIds face ! 0)) (\<lambda>v0.
       bindE (vertexAt vertices (vertexIds face ! 1)) (\<lambda>v1.
       bindE (vertexAt vertices (vertexIds face ! 2)) (\<lambda>v2.
       bindE (computeClosestPointOnTriangle v0 v1 v2 queryPoint) (\<lambda>result1.
         if length (vertexIds face) = 3 then Inr result1
         else
           bindE (vertexAt vertices (vertexIds face ! 3)) (\<lambda>v3.
           bindE (computeClosestPointOnTriangle v2 v3 v0 queryPoint) (\<lambda>result2.
             Inr (if snd result2 < snd result1 then result2 else result1))))))))"

section \<open>Bounds\<close>

record AABCube =
  center :: Point
  halfWidth :: float

text \<open>The box has the same field names as the cube in the C++; they are prefixed here.\<close>

record AABBox =
  boxCenter :: Point
  boxHalfWidth :: Float3

type_synonym Extent = "Point \<times> Point"

definition growExtent :: "Extent \<Rightarrow> Point \<Rightarrow> Extent" where
  "growExtent extent point =
    (let resultMin = \<lparr>x = std_min (x (fst extent)) (x point),
                      y = std_min (y (fst extent)) (y point),
                      z = std_min (z (fst extent)) (z point)\<rparr>;
         resultMax = \<lparr>x = std_max (x (snd extent)) (x point),
                      y = std_max (y (snd extent)) (y point),
                      z = std_max (z (snd extent)) (z point)\<rparr>
     in (resultMin, resultMax))"

definition computeCubicBounds :: "Extent \<Rightarrow> AABCube" where
  "computeCubicBounds extent =
    (let dimensions = Float3_sub (snd extent) (fst extent)
     in \<lparr>center = Float3_mul_scalar (Float3_add (fst extent) (snd extent)) (Fin (1/2)),
         halfWidth = Fin (1/2) * std_max (x dimensions) (std_max (y dimensions) (z dimensions))\<rparr>)"

definition computeBounds :: "Extent \<Rightarrow> AABBox" where
  "computeBounds extent =
    (let dimensions = Float3_sub (snd extent) (fst extent)
     in \<lparr>boxCenter = Float3_mul_scalar (Float3_add (fst extent) (snd extent)) (Fin (1/2)),
         boxHalfWidth = Float3_mul_scalar dimensions (Fin (1/2))\<rparr>)"

definition computeSqrDistanceToBounds :: "Point \<Rightarrow> AABCube \<Rightarrow> float" where
  "computeSqrDistanceToBounds queryPoint bounds =
    (let d = Float3_sub_scalar (Float3_abs (Float3_sub queryPoint (center bounds)))
                               (halfWidth bounds)
     in sqrLength \<lparr>x = std_max (x d) (Fin 0), y = std_max (y d) (Fin 0),
                   z = std_max (z d) (Fin 0)\<rparr>)"

type_synonym OctreeElement = "Face \<times> AABBox"

text \<open>The intersection test of the query engine: an element's box against a cube.\<close>

definition intersect :: "AABCube \<Rightarrow> OctreeElement \<Rightarrow> bool" where
  "intersect cube element =
    (let box = snd element;
         distances = Float3_abs (Float3_sub (center cube) (boxCenter box));
         halfWidthSum = Float3_add (Float3_n (halfWidth cube)) (boxHalfWidth box)
     in x distances \<le> x halfWidthSum \<and> y distances \<le> y halfWidthSum
        \<and> z distances \<le> z halfWidthSum)"

text \<open>The intersection test of the octree's unit test: a point inside a cube.\<close>

definition intersectPoint :: "AABCube \<Rightarrow> Point \<Rightarrow> bool" where
  "intersectPoint cube point =
    (let distances = Float3_abs (Float3_sub (center cube) point)
     in x distances \<le> halfWidth cube \<and> y distances \<le> halfWidth cube
        \<and> z distances \<le> halfWidth cube)"

section \<open>OctreeNode.h\<close>

text \<open>
  A node owns its elements, eight child slots (absent children are \<open>None\<close>), its bounds and
  the leaf flag. Mutation is modelled by returning the updated node.
\<close>

datatype 'a OctreeNode =
  OctreeNode (m_elements: "'a list") (m_children: "'a OctreeNode option list")
             (m_bounds: AABCube) (m_isLeaf: bool)

definition newOctreeNode :: "AABCube \<Rightarrow> 'a OctreeNode" where
  "newOctreeNode bounds =
    OctreeNode [] [None, None, None, None, None, None, None, None] bounds True"

text \<open>\<^verbatim>\<open>m_children[index]\<close>; a slot beyond the stored list is an absent child.\<close>

definition childAt :: "'a OctreeNode \<Rightarrow> nat \<Rightarrow> 'a OctreeNode option" where
  "childAt node index =
    (if index < length (m_children node) then m_children node ! index else None)"

definition getChildBounds :: "'a OctreeNode \<Rightarrow> nat \<Rightarrow> AABCube" where
  "getChildBounds node index =
    (case childAt node index of
       Some child \<Rightarrow> m_bounds child
     | None \<Rightarrow>
        (let hw = halfWidth (m_bounds node) * Fin (1/2);
             c = center (m_bounds node)
         in \<lparr>center = \<lparr>x = x c + (if index AND 1 \<noteq> 0 then Fin 1 else Fin (-1)) * hw,
                        y = y c + (if index AND 2 \<noteq> 0 then Fin 1 else Fin (-1)) * hw,
                        z = z c + (if index AND 4 \<noteq> 0 then Fin 1 else Fin (-1)) * hw\<rparr>,
             halfWidth = hw\<rparr>))"

definition childIndices :: "nat list" where
  "childIndices = [0, 1, 2, 3, 4, 5, 6, 7]"

lemma size_list_mem: "v \<in> set cs \<Longrightarrow> f v \<le> size_list f cs"
  by (induction cs) auto

lemma childAt_size: "childAt node i = Some ch \<Longrightarrow> size ch < size node"
proof (cases node)
  case (OctreeNode es cs b l)
  assume h: "childAt node i = Some ch"
  with OctreeNode have "Some ch \<in> set cs"
    by (auto simp: childAt_def split: if_splits dest: nth_mem)
  from size_list_mem[OF this, of "size_option size"] show ?thesis
    using OctreeNode by simp
qed

text \<open>
  \<^verbatim>\<open>walkInsert\<close>. The part after the leaf test, the loop over the eight child slots, is
  \<open>walkInsertChildren\<close>: iteration \<open>childIndex\<close> reads and writes slot \<open>childIndex\<close> only, so
  the loop is a map over the slots. A leaf that is subdivided clears its leaf flag and
  re-inserts its elements from the back; these calls and the final one for the incoming
  element run on a node that is no longer a leaf, so they go straight to the loop over the
  children. In \<^verbatim>\<open>m_elements.size() / (float) (1+depth)\<close> both operands are converted to
  \<^verbatim>\<open>float\<close> before the division.
\<close>

function walkInsert ::
    "(AABCube \<Rightarrow> 'a \<Rightarrow> bool) \<Rightarrow> int \<Rightarrow> float \<Rightarrow> 'a \<Rightarrow> int \<Rightarrow> 'a OctreeNode \<Rightarrow> 'a OctreeNode"
  and walkInsertChildren ::
    "(AABCube \<Rightarrow> 'a \<Rightarrow> bool) \<Rightarrow> int \<Rightarrow> float \<Rightarrow> 'a \<Rightarrow> int \<Rightarrow> 'a OctreeNode \<Rightarrow> 'a OctreeNode"
where
  "walkInsert isect maxDepth maxFill element depth node =
    (if m_isLeaf node then
       (let depthFillRatio =
              round32 (real (length (m_elements node))) / round32 (real_of_int (1 + depth));
            shouldSubdivide = (maxFill < depthFillRatio \<and> depth < maxDepth)
        in if shouldSubdivide then
             (let pushed = fold (\<lambda>el nd. walkInsertChildren isect maxDepth maxFill el depth nd)
                                (rev (m_elements node))
                                (OctreeNode (m_elements node) (m_children node) (m_bounds node)
                                            False);
                  emptied = OctreeNode [] (m_children pushed) (m_bounds pushed)
                                       (m_isLeaf pushed)
              in walkInsertChildren isect maxDepth maxFill element depth emptied)
           else OctreeNode (m_elements node @ [element]) (m_children node) (m_bounds node)
                           (m_isLeaf node))
     else walkInsertChildren isect maxDepth maxFill element depth node)"
| "walkInsertChildren isect maxDepth maxFill element depth node =
    OctreeNode (m_elements node)
      (map (\<lambda>childIndex.
              (let childBounds = getChildBounds node childIndex
               in if isect childBounds element then
                    Some (walkInsert isect maxDepth maxFill element (depth + 1)
                            (case childAt node childIndex of
                               None \<Rightarrow> newOctreeNode childBounds
                             | Some child \<Rightarrow> child))
                  else childAt node childIndex))
           childIndices)
      (m_bounds node) (m_isLeaf node)"
  by pat_completeness auto

termination
  apply (relation "inv_image (less_than <*lex*> less_than)
      (\<lambda>v. case v of
          Inl (isect, maxDepth, maxFill, element, depth, node) \<Rightarrow>
            (2 * nat (maxDepth - depth) + (if m_isLeaf node \<and> depth < maxDepth then 1 else 0),
             if m_isLeaf node then 0 else 2 * size node + 1)
        | Inr (isect, maxDepth, maxFill, element, depth, node) \<Rightarrow>
            (2 * nat (maxDepth - depth), 2 * size node))")
      apply (rule wf_inv_image, rule wf_lex_prod, rule wf_less_than, rule wf_less_than)
     apply simp
    apply simp
   apply simp
  subgoal for isect maxDepth maxFill element depth node i cb
    using childAt_size[of node i]
    by (cases node) (auto simp: newOctreeNode_def split: option.splits)
  done

text \<open>\<^verbatim>\<open>insert\<close> starts the walk at depth 0; the defaults are \<open>maxDepth = 10\<close> and
  \<open>maxFill = 3.0\<close>.\<close>

definition insert ::
  "'a \<Rightarrow> (AABCube \<Rightarrow> 'a \<Rightarrow> bool) \<Rightarrow> int \<Rightarrow> float \<Rightarrow> 'a OctreeNode \<Rightarrow> 'a OctreeNode" where
  "insert element isect maxDepth maxFill node = walkInsert isect maxDepth maxFill element 0 node"

text \<open>The children visited by \<^verbatim>\<open>accept(visitChild)\<close>: the present ones, in slot order.\<close>

definition presentChildren :: "'a OctreeNode \<Rightarrow> 'a OctreeNode list" where
  "presentChildren node = List.map_filter id (m_children node)"

text \<open>
  The traversal of the unit test (\<^verbatim>\<open>visitNode\<close> in OctreeNode.ut.cpp): the state is
  \<open>(maxVisitedDepth, maxVisitedFill)\<close>.
\<close>

lemma presentChildren_size: "ch \<in> set (presentChildren node) \<Longrightarrow> size ch < size node"
proof (cases node)
  case (OctreeNode es cs b l)
  assume "ch \<in> set (presentChildren node)"
  with OctreeNode have "Some ch \<in> set cs"
    by (auto simp: presentChildren_def map_filter_def)
  from size_list_mem[OF this, of "size_option size"] show ?thesis
    using OctreeNode by simp
qed

function visitNode :: "'a OctreeNode \<Rightarrow> int \<Rightarrow> int \<times> int \<Rightarrow> int \<times> int" where
  "visitNode node depth st =
    (if m_isLeaf node then
       (max (fst st) depth, max (snd st) (int (length (m_elements node))))
     else fold (\<lambda>child st'. visitNode child (depth + 1) st') (presentChildren node) st)"
  by pat_completeness auto
termination
  by (relation "measure (\<lambda>(node, depth, st). size node)") (auto dest: presentChildren_size)

section \<open>ClosestPointQuery\<close>

record Mesh =
  getVertices :: "Point list"
  getFaces :: "Face list"

type_synonym Node = "OctreeElement OctreeNode"

record Impl =
  m_vertices :: "Point list"
  m_faces :: "Face list"
  m_partitionedSpace :: "Node option"

text \<open>\<^verbatim>\<open>std::accumulate\<close> with a step that may throw: the first exception ends the loop.\<close>

fun accumulateE :: "('s \<Rightarrow> 'a \<Rightarrow> error + 's) \<Rightarrow> 'a list \<Rightarrow> 's \<Rightarrow> error + 's" where
  "accumulateE f [] init = Inr init"
| "accumulateE f (v # vs) init = bindE (f init v) (accumulateE f vs)"

subsection \<open>Linear scan\<close>

definition reduceClosestPointOnFace ::
  "Point list \<Rightarrow> Point \<Rightarrow> float \<Rightarrow> ClosestPointSpec \<Rightarrow> Face \<Rightarrow> error + ClosestPointSpec" where
  "reduceClosestPointOnFace vertices queryPoint sqrMaxDist inputClosest face =
    bindE (computeClosestPointOnFace face vertices queryPoint) (\<lambda>faceClosest.
      Inr (if snd faceClosest < sqrMaxDist \<and> snd faceClosest < snd inputClosest
           then faceClosest else inputClosest))"

definition processMesh :: "Impl \<Rightarrow> Point \<Rightarrow> float \<Rightarrow> error + Point" where
  "processMesh impl queryPoint sqrMaxDist =
    bindE (accumulateE (reduceClosestPointOnFace (m_vertices impl) queryPoint sqrMaxDist)
                       (m_faces impl) (Float3_n NaN, PInf))
          (\<lambda>closest. Inr (fst closest))"

subsection \<open>Building the octree\<close>

definition emptyExtent :: Extent where
  "emptyExtent = (Float3_n PInf, Float3_n NInf)"

definition growFaceExtent :: "Point list \<Rightarrow> Extent \<Rightarrow> int \<Rightarrow> error + Extent" where
  "growFaceExtent vertices extent vertexId =
    bindE (vertexAt vertices vertexId) (\<lambda>v. Inr (growExtent extent v))"

definition insertFace :: "Point list \<Rightarrow> Node \<Rightarrow> Face \<Rightarrow> error + Node" where
  "insertFace vertices rootNode face =
    bindE (accumulateE (growFaceExtent vertices) (vertexIds face) emptyExtent) (\<lambda>faceExtent.
      Inr (insert (face, computeBounds faceExtent) intersect 10 (Fin 3) rootNode))"

definition partitionSpace :: "Point list \<Rightarrow> Face list \<Rightarrow> error + Node" where
  "partitionSpace vertices faces =
    (let meshExtent = fold (\<lambda>v extent. growExtent extent v) vertices emptyExtent;
         rootNode = newOctreeNode (computeCubicBounds meshExtent)
     in accumulateE (insertFace vertices) faces rootNode)"

definition minSpacePartitioningFaces :: nat where
  "minSpacePartitioningFaces = 32"

text \<open>The constructor \<^verbatim>\<open>ClosestPointQuery::Impl::Impl\<close>.\<close>

definition ImplCtor :: "Mesh \<Rightarrow> error + Impl" where
  "ImplCtor m =
    (if getVertices m = [] then Inl EmptyMesh
     else if minSpacePartitioningFaces \<le> length (getFaces m) then
       bindE (partitionSpace (getVertices m) (getFaces m)) (\<lambda>rootNode.
         Inr \<lparr>m_vertices = getVertices m, m_faces = getFaces m,
              m_partitionedSpace = Some rootNode\<rparr>)
     else Inr \<lparr>m_vertices = getVertices m, m_faces = getFaces m,
               m_partitionedSpace = None\<rparr>)"

subsection \<open>Best-first search\<close>

text \<open>
  The heap is a \<^verbatim>\<open>std::priority_queue\<close> ordered by the smaller squared distance. It is
  modelled by the list of its entries in the order they were pushed. \<^verbatim>\<open>top\<close> is an entry
  that no other entry is smaller than; which one of several such entries the standard
  library yields is not fixed by the language, so the choice is a parameter \<open>tie\<close> of the
  model: it selects among the minimal entries.
\<close>

type_synonym HeapEntry = "Node \<times> float"

definition minimalIndices :: "HeapEntry list \<Rightarrow> nat list" where
  "minimalIndices heap =
    filter (\<lambda>i. \<forall>entry \<in> set heap. \<not> snd entry < snd (heap ! i)) [0..<length heap]"

definition heapTopIndex :: "(HeapEntry list \<Rightarrow> nat) \<Rightarrow> HeapEntry list \<Rightarrow> nat" where
  "heapTopIndex tie heap =
    (let candidates = minimalIndices heap
     in if candidates = [] then 0 else candidates ! (tie heap mod length candidates))"

definition heapTop :: "(HeapEntry list \<Rightarrow> nat) \<Rightarrow> HeapEntry list \<Rightarrow> HeapEntry" where
  "heapTop tie heap = heap ! heapTopIndex tie heap"

definition heapPop :: "(HeapEntry list \<Rightarrow> nat) \<Rightarrow> HeapEntry list \<Rightarrow> HeapEntry list" where
  "heapPop tie heap =
    take (heapTopIndex tie heap) heap @ drop (Suc (heapTopIndex tie heap)) heap"

definition heapPush :: "HeapEntry \<Rightarrow> HeapEntry list \<Rightarrow> HeapEntry list" where
  "heapPush entry heap = heap @ [entry]"

definition visitElement ::
  "Point list \<Rightarrow> Point \<Rightarrow> float \<Rightarrow> ClosestPointSpec \<Rightarrow> OctreeElement \<Rightarrow> error + ClosestPointSpec" where
  "visitElement vertices queryPoint sqrMaxDist result element =
    bindE (computeClosestPointOnFace (fst element) vertices queryPoint) (\<lambda>faceClosest.
      Inr (if snd faceClosest < sqrMaxDist \<and> snd faceClosest < snd result
           then faceClosest else result))"

definition visitChild ::
  "Point \<Rightarrow> ClosestPointSpec \<Rightarrow> Node \<Rightarrow> HeapEntry list \<Rightarrow> HeapEntry list" where
  "visitChild queryPoint result child heap =
    (let nodeSqrDist = computeSqrDistanceToBounds queryPoint (m_bounds child)
     in if nodeSqrDist < snd result then heapPush (child, nodeSqrDist) heap else heap)"

lemma sum_list_presentChildren_size:
  "sum_list (map size (presentChildren node)) < size node"
proof (cases node)
  case (OctreeNode es cs b l)
  have "sum_list (map size (List.map_filter id cs)) \<le> size_list (size_option size) cs"
    by (induction cs) (auto simp: List.map_filter_simps split: option.splits)
  then show ?thesis using OctreeNode by (simp add: presentChildren_def)
qed

lemma fold_visitChild_size:
  "sum_list (map (\<lambda>e. size (fst e)) (fold (visitChild q r) cs heap))
     \<le> sum_list (map (\<lambda>e. size (fst e)) heap) + sum_list (map size cs)"
proof (induction cs arbitrary: heap)
  case Nil
  then show ?case by simp
next
  case (Cons c cs)
  have "sum_list (map (\<lambda>e. size (fst e)) (visitChild q r c heap))
          \<le> sum_list (map (\<lambda>e. size (fst e)) heap) + size c"
    by (simp add: visitChild_def heapPush_def Let_def)
  with Cons[of "visitChild q r c heap"] show ?case by simp
qed

lemma heapTopIndex_less: "heap \<noteq> [] \<Longrightarrow> heapTopIndex tie heap < length heap"
proof -
  assume ne: "heap \<noteq> []"
  let ?c = "minimalIndices heap"
  show ?thesis
  proof (cases "?c = []")
    case True
    then show ?thesis using ne by (simp add: heapTopIndex_def)
  next
    case False
    then have "?c ! (tie heap mod length ?c) \<in> set ?c"
      by (intro nth_mem) simp
    then show ?thesis using False
      by (auto simp: heapTopIndex_def minimalIndices_def Let_def)
  qed
qed

lemma sum_list_remove_nth:
  "i < length xs \<Longrightarrow>
     sum_list (map f (take i xs @ drop (Suc i) xs)) + f (xs ! i) = (sum_list (map f xs) :: nat)"
proof -
  assume "i < length xs"
  then have "xs = take i xs @ xs ! i # drop (Suc i) xs"
    by (simp add: id_take_nth_drop)
  then have "sum_list (map f xs) = sum_list (map f (take i xs @ xs ! i # drop (Suc i) xs))"
    by simp
  then show ?thesis by simp
qed

lemma heapPop_size:
  "heap \<noteq> [] \<Longrightarrow>
     sum_list (map (\<lambda>e. size (fst e)) (heapPop tie heap)) + size (fst (heapTop tie heap))
       = sum_list (map (\<lambda>e. size (fst e)) heap)"
  using sum_list_remove_nth[OF heapTopIndex_less, of heap "\<lambda>e. size (fst e)" tie]
  by (simp add: heapPop_def heapTop_def)

lemma size_OctreeNode_pos: "0 < size (node :: 'a OctreeNode)"
  by (cases node) simp

text \<open>
  The \<^verbatim>\<open>while\<close> loop of \<^verbatim>\<open>processPartitionedSpace\<close>, on the heap and the running
  result: \<open>bfsContinue\<close> is its condition, \<open>bfsBody\<close> one iteration.
\<close>

definition bfsContinue :: "(HeapEntry list \<Rightarrow> nat) \<Rightarrow> HeapEntry list \<Rightarrow> ClosestPointSpec \<Rightarrow> bool" where
  "bfsContinue tie heap result = (heap \<noteq> [] \<and> snd (heapTop tie heap) < snd result)"

definition bfsBody ::
  "(HeapEntry list \<Rightarrow> nat) \<Rightarrow> Point list \<Rightarrow> Point \<Rightarrow> float \<Rightarrow> HeapEntry list \<Rightarrow> ClosestPointSpec
     \<Rightarrow> error + (HeapEntry list \<times> ClosestPointSpec)" where
  "bfsBody tie vertices queryPoint sqrMaxDist heap result =
    (let node = fst (heapTop tie heap);
         heap1 = heapPop tie heap
     in if m_isLeaf node then
          bindE (accumulateE (visitElement vertices queryPoint sqrMaxDist)
                             (m_elements node) result)
                (\<lambda>result1. Inr (heap1, result1))
        else Inr (fold (visitChild queryPoint result) (presentChildren node) heap1, result))"

lemma bfsBody_size:
  assumes "bfsContinue tie heap result"
    and "bfsBody tie vertices queryPoint sqrMaxDist heap result = Inr (heap', result')"
  shows "sum_list (map (\<lambda>e. size (fst e)) heap') < sum_list (map (\<lambda>e. size (fst e)) heap)"
proof -
  let ?node = "fst (heapTop tie heap)"
  from assms(1) have ne: "heap \<noteq> []" by (simp add: bfsContinue_def)
  note pop = heapPop_size[OF ne, of tie]
  show ?thesis
  proof (cases "m_isLeaf ?node")
    case True
    with assms(2) have "heap' = heapPop tie heap"
      by (auto simp: bfsBody_def bindE_def Let_def split: sum.splits)
    then show ?thesis using pop size_OctreeNode_pos[of ?node] by simp
  next
    case False
    with assms(2) have
      "heap' = fold (visitChild queryPoint result) (presentChildren ?node) (heapPop tie heap)"
      by (auto simp: bfsBody_def Let_def)
    then show ?thesis
      using pop sum_list_presentChildren_size[of ?node]
        fold_visitChild_size[of queryPoint result "presentChildren ?node" "heapPop tie heap"]
      by simp
  qed
qed

function bfsLoop ::
  "(HeapEntry list \<Rightarrow> nat) \<Rightarrow> Point list \<Rightarrow> Point \<Rightarrow> float \<Rightarrow> HeapEntry list \<Rightarrow> ClosestPointSpec
     \<Rightarrow> error + ClosestPointSpec" where
  "bfsLoop tie vertices queryPoint sqrMaxDist heap result =
    (if bfsContinue tie heap result then
       (case bfsBody tie vertices queryPoint sqrMaxDist heap result of
          Inl err \<Rightarrow> Inl err
        | Inr st \<Rightarrow> bfsLoop tie vertices queryPoint sqrMaxDist (fst st) (snd st))
     else Inr result)"
  by pat_completeness auto
termination
proof (relation "measure (\<lambda>(tie, vertices, queryPoint, sqrMaxDist, heap, result).
                            sum_list (map (\<lambda>e. size (fst e)) heap))", goal_cases)
  case 1
  show ?case by simp
next
  case (2 tie vertices queryPoint sqrMaxDist heap result st)
  then show ?case
    using bfsBody_size[of tie heap result vertices queryPoint sqrMaxDist "fst st" "snd st"]
    by (simp add: case_prod_beta)
qed

definition processPartitionedSpace ::
  "(HeapEntry list \<Rightarrow> nat) \<Rightarrow> Impl \<Rightarrow> Point \<Rightarrow> float \<Rightarrow> error + Point" where
  "processPartitionedSpace tie impl queryPoint sqrMaxDist =
    (case m_partitionedSpace impl of
       None \<Rightarrow> Inr (Float3_n NaN)
     | Some rootNode \<Rightarrow>
         (let rootSqrDist = computeSqrDistanceToBounds queryPoint (m_bounds rootNode)
          in bindE (bfsLoop tie (m_vertices impl) queryPoint sqrMaxDist
                            (heapPush (rootNode, rootSqrDist) []) (Float3_n NaN, PInf))
                   (\<lambda>result. Inr (fst result))))"

text \<open>\<^verbatim>\<open>ClosestPointQuery::operator()\<close>.\<close>

definition query :: "(HeapEntry list \<Rightarrow> nat) \<Rightarrow> Impl \<Rightarrow> Point \<Rightarrow> float \<Rightarrow> error + Point" where
  "query tie impl queryPoint maxDist =
    (if m_partitionedSpace impl \<noteq> None
     then processPartitionedSpace tie impl queryPoint (maxDist * maxDist)
     else processMesh impl queryPoint (maxDist * maxDist))"

section \<open>Notions used in the statements\<close>

text \<open>A point all of whose coordinates are finite numbers, and the point with given real
  coordinates.\<close>

definition finite3 :: "Float3 \<Rightarrow> bool" where
  "finite3 v = (is_Fin (x v) \<and> is_Fin (y v) \<and> is_Fin (z v))"

definition P3 :: "real \<Rightarrow> real \<Rightarrow> real \<Rightarrow> Point" where
  "P3 a b c = \<lparr>x = Fin a, y = Fin b, z = Fin c\<rparr>"

text \<open>Componentwise \<open>|pt - center| \<le> halfWidth\<close>.\<close>

definition insideCube :: "Point \<Rightarrow> AABCube \<Rightarrow> bool" where
  "insideCube pt cube =
    (let distances = Float3_abs (Float3_sub pt (center cube))
     in x distances \<le> halfWidth cube \<and> y distances \<le> halfWidth cube
        \<and> z distances \<le> halfWidth cube)"

text \<open>The spec's \<open>clamp(v, lo, hi)\<close>.\<close>

definition clamp :: "float \<Rightarrow> float \<Rightarrow> float \<Rightarrow> float" where
  "clamp v lo hi = (if v < lo then lo else if hi < v then hi else v)"

text \<open>The squared distance between two points with finite coordinates, without rounding.\<close>

definition exactSqrDistance :: "Point \<Rightarrow> Point \<Rightarrow> real" where
  "exactSqrDistance p q =
    (real_of (x p) - real_of (x q)) * (real_of (x p) - real_of (x q))
    + (real_of (y p) - real_of (y q)) * (real_of (y p) - real_of (y q))
    + (real_of (z p) - real_of (z q)) * (real_of (z p) - real_of (z q))"

text \<open>Region 2 as claim C4 words it.\<close>

definition region2Claimed :: "float \<Rightarrow> float \<Rightarrow> float \<Rightarrow> float \<Rightarrow> float \<Rightarrow> float \<times> float" where
  "region2Claimed a b c d e =
    (let tmp0 = b + d; tmp1 = c + e
     in if tmp0 < tmp1 then
          (let s = clamp ((tmp1 - tmp0) / (a - Fin 2 * b + c)) (Fin 0) (Fin 1) in (s, Fin 1 - s))
        else (Fin 0, if tmp1 \<le> Fin 0 then Fin 0
                     else if Fin 0 \<le> e then Fin 0
                     else clamp (- e / c) (Fin 0) (Fin 1)))"

text \<open>
  Region 2 as the code computes it: the vertex case \<open>tmp1 \<le> 0\<close> gives \<open>t = 1\<close>, and on the edge
  \<open>s\<close> is 1 when \<open>a - 2b + c \<le> tmp1 - tmp0\<close> and the quotient otherwise.
\<close>

definition region2Amended :: "float \<Rightarrow> float \<Rightarrow> float \<Rightarrow> float \<Rightarrow> float \<Rightarrow> float \<times> float" where
  "region2Amended a b c d e =
    (let tmp0 = b + d; tmp1 = c + e
     in if tmp0 < tmp1 then
          (let num = tmp1 - tmp0; denom = a - Fin 2 * b + c;
               s = (if denom \<le> num then Fin 1 else num / denom)
           in (s, Fin 1 - s))
        else (Fin 0, if tmp1 \<le> Fin 0 then Fin 1
                     else if Fin 0 \<le> e then Fin 0
                     else clamp (- e / c) (Fin 0) (Fin 1)))"

text \<open>Region 6 as claim C3 words it.\<close>

definition region6Claimed :: "float \<Rightarrow> float \<Rightarrow> float \<Rightarrow> float \<Rightarrow> float \<Rightarrow> float \<times> float" where
  "region6Claimed a b c d e =
    (let tmp0 = b + e; tmp1 = a + d
     in if tmp0 < tmp1 then
          (let t = clamp ((tmp1 - tmp0) / (a - Fin 2 * b + c)) (Fin 0) (Fin 1) in (Fin 1 - t, t))
        else (if tmp1 \<le> Fin 0 then Fin 1
              else if Fin 0 \<le> d then Fin 0
              else - d / a, Fin 0))"

text \<open>The divisions executed by \<open>triangleParams\<close> on the branch taken, as
  (site, numerator, divisor).\<close>

datatype divisionSite = NegD_over_A | NegE_over_C | One_over_Det | Num_over_Denom

definition triangleDivisions ::
  "float \<Rightarrow> float \<Rightarrow> float \<Rightarrow> float \<Rightarrow> float \<Rightarrow> float \<Rightarrow> float \<Rightarrow> float
    \<Rightarrow> (divisionSite \<times> float \<times> float) list" where
  "triangleDivisions a b c d e det s1 t1 =
    (if s1 + t1 \<le> det then
       (if s1 < Fin 0 then
          (if t1 < Fin 0 then
             (if d < Fin 0 then
                (if a \<le> - d then [] else [(NegD_over_A, - d, a)])
              else
                (if Fin 0 \<le> e then []
                 else if c \<le> - e then []
                 else [(NegE_over_C, - e, c)]))
           else
             (if Fin 0 \<le> e then []
              else if c \<le> - e then []
              else [(NegE_over_C, - e, c)]))
        else if t1 < Fin 0 then
          (if Fin 0 \<le> d then []
           else if a \<le> - d then []
           else [(NegD_over_A, - d, a)])
        else [(One_over_Det, Fin 1, det)])
     else
       (if s1 < Fin 0 then
          (let tmp0 = b + d; tmp1 = c + e in
           if tmp0 < tmp1 then
             (let num = tmp1 - tmp0; denom = a - Fin 2 * b + c
              in if denom \<le> num then [] else [(Num_over_Denom, num, denom)])
           else
             (if tmp1 \<le> Fin 0 then []
              else if Fin 0 \<le> e then []
              else [(NegE_over_C, - e, c)]))
        else if t1 < Fin 0 then
          (let tmp0 = b + e; tmp1 = a + d in
           if tmp0 < tmp1 then
             (let num = tmp1 - tmp0; denom = a - Fin 2 * b + c
              in if denom \<le> num then [] else [(Num_over_Denom, num, denom)])
           else
             (if tmp1 \<le> Fin 0 then []
              else if Fin 0 \<le> d then []
              else [(NegD_over_A, - d, a)]))
        else
          (let num = c + e - b - d
           in if num \<le> Fin 0 then []
              else (let denom = a - Fin 2 * b + c
                    in if denom \<le> num then [] else [(Num_over_Denom, num, denom)]))))"

text \<open>Three points with finite coordinates on a line: the cross product of the two edges
  from the first, taken without rounding, is zero.\<close>

definition collinear3 :: "Point \<Rightarrow> Point \<Rightarrow> Point \<Rightarrow> bool" where
  "collinear3 p0 p1 p2 =
    (let u1 = real_of (x p1) - real_of (x p0); u2 = real_of (y p1) - real_of (y p0);
         u3 = real_of (z p1) - real_of (z p0);
         w1 = real_of (x p2) - real_of (x p0); w2 = real_of (y p2) - real_of (y p0);
         w3 = real_of (z p2) - real_of (z p0)
     in u2 * w3 - u3 * w2 = 0 \<and> u3 * w1 - u1 * w3 = 0 \<and> u1 * w2 - u2 * w1 = 0)"

text \<open>The scenario of the octree's unit test: the point inserted and the root node.\<close>

definition origin :: Point where
  "origin = Float3_n (Fin 0)"

definition testRoot :: "Point OctreeNode" where
  "testRoot = newOctreeNode \<lparr>center = Float3_n (Fin 0), halfWidth = Fin (1/2)\<rparr>"

text \<open>The bounds \<open>getChildBounds\<close> computes for an absent child.\<close>

definition childCube :: "AABCube \<Rightarrow> nat \<Rightarrow> AABCube" where
  "childCube b index =
    (let hw = halfWidth b * Fin (1/2); c = center b
     in \<lparr>center = \<lparr>x = x c + (if index AND 1 \<noteq> 0 then Fin 1 else Fin (-1)) * hw,
                    y = y c + (if index AND 2 \<noteq> 0 then Fin 1 else Fin (-1)) * hw,
                    z = z c + (if index AND 4 \<noteq> 0 then Fin 1 else Fin (-1)) * hw\<rparr>,
         halfWidth = hw\<rparr>)"

text \<open>
  The cubes of the scenario. At level \<open>j\<close> the half-width is \<open>2\<^sup>-\<^sup>(\<^sup>j\<^sup>+\<^sup>1\<^sup>)\<close> and each coordinate of
  the centre is 0 or plus or minus the half-width, so the origin is in the cube. These
  numbers and the ones \<open>getChildBounds\<close> computes from them are binary32 values.
\<close>

definition onGrid :: "nat \<Rightarrow> float \<Rightarrow> bool" where
  "onGrid j v = (v = Fin (- (1 / 2 ^ (j + 1))) \<or> v = Fin 0 \<or> v = Fin (1 / 2 ^ (j + 1)))"

definition holdsOrigin :: "nat \<Rightarrow> AABCube \<Rightarrow> bool" where
  "holdsOrigin j b =
    (j \<le> 100 \<and> halfWidth b = Fin (1 / 2 ^ (j + 1))
     \<and> onGrid j (x (center b)) \<and> onGrid j (y (center b)) \<and> onGrid j (z (center b)))"

text \<open>The cube with centre \<open>(kx, ky, kz) / 2\<^sup>n\<close> and half-width \<open>1 / 2\<^sup>n\<close>, and the side of child
  \<open>i\<close> along the axis with mask \<open>m\<close>, as \<open>getChildBounds\<close> reads it off the index.\<close>

definition gridCube :: "nat \<Rightarrow> int \<Rightarrow> int \<Rightarrow> int \<Rightarrow> AABCube" where
  "gridCube n kx ky kz =
    \<lparr>center = \<lparr>x = Fin (of_int kx / 2 ^ n), y = Fin (of_int ky / 2 ^ n), z = Fin (of_int kz / 2 ^ n)\<rparr>,
     halfWidth = Fin (1 / 2 ^ n)\<rparr>"

definition childSide :: "nat \<Rightarrow> nat \<Rightarrow> int" where
  "childSide i m = (if i AND m \<noteq> 0 then 1 else - 1)"

text \<open>The slot of a child that contains the origin again.\<close>

definition toward :: "AABCube \<Rightarrow> nat" where
  "toward b =
    (if x (center b) < Fin 0
     then (if y (center b) < Fin 0 then (if z (center b) < Fin 0 then 7 else 3)
           else (if z (center b) < Fin 0 then 5 else 1))
     else (if y (center b) < Fin 0 then (if z (center b) < Fin 0 then 6 else 2)
           else (if z (center b) < Fin 0 then 4 else 0)))"

definition noChildren :: "'a OctreeNode option list" where
  "noChildren = [None, None, None, None, None, None, None, None]"

text \<open>The child slots of a node with bounds \<open>b\<close> once the origin has been pushed into its
  children: the slots whose cube contains the origin hold the children \<open>cs\<close>.\<close>

definition originSlots :: "AABCube \<Rightarrow> (nat \<Rightarrow> Point OctreeNode) \<Rightarrow> Point OctreeNode option list" where
  "originSlots b cs =
    map (\<lambda>i. if intersectPoint (childCube b i) origin then Some (cs i) else None) childIndices"

text \<open>A tree whose root is at level \<open>j\<close>, all of whose leaves are \<open>k\<close> levels down and hold \<open>n\<close>
  copies of the origin.\<close>

fun uniformTree :: "nat \<Rightarrow> nat \<Rightarrow> nat \<Rightarrow> Point OctreeNode \<Rightarrow> bool" where
  "uniformTree j 0 n node =
    (m_isLeaf node \<and> m_elements node = replicate n origin \<and> m_children node = noChildren
     \<and> holdsOrigin j (m_bounds node))"
| "uniformTree j (Suc k) n node =
    (\<not> m_isLeaf node \<and> m_elements node = [] \<and> holdsOrigin j (m_bounds node)
     \<and> (\<exists>cs. m_children node = originSlots (m_bounds node) cs
           \<and> (\<forall>i \<in> set childIndices. intersectPoint (childCube (m_bounds node) i) origin
                  \<longrightarrow> uniformTree (Suc j) k n (cs i))))"

text \<open>The subdivision test of \<open>walkInsert\<close> in the scenario (\<open>maxFill = 3\<close>,
  \<open>maxDepth = 100\<close>).\<close>

definition shouldSubdivide :: "nat \<Rightarrow> int \<Rightarrow> bool" where
  "shouldSubdivide n depth =
    (Fin 3 < round32 (real n) / round32 (real_of_int (1 + depth)) \<and> depth < 100)"

section \<open>Rounding\<close>

lemma rne_of_int [simp]: "rne (of_int k) = k"
  by (simp add: rne_def rneFrac_def)

lemma rne_0 [simp]: "rne 0 = 0"
  by (simp add: rne_def rneFrac_def)

lemma rne_bounds: "\<lfloor>m\<rfloor> \<le> rne m \<and> rne m \<le> \<lfloor>m\<rfloor> + 1"
  by (simp add: rne_def rneFrac_def)

lemma rne_mono: "a \<le> b \<Longrightarrow> rne a \<le> rne b"
proof -
  assume ab: "a \<le> b"
  then have fl: "\<lfloor>a\<rfloor> \<le> \<lfloor>b\<rfloor>" by (rule floor_mono)
  show ?thesis
  proof (cases "\<lfloor>a\<rfloor> = \<lfloor>b\<rfloor>")
    case True
    then show ?thesis using ab by (auto simp: rne_def rneFrac_def)
  next
    case False
    with fl have "\<lfloor>a\<rfloor> + 1 \<le> \<lfloor>b\<rfloor>" by simp
    with rne_bounds[of a] rne_bounds[of b] show ?thesis by linarith
  qed
qed

lemma expoSearch_char:
  "lo < hi \<Longrightarrow>
     lo \<le> expoSearch lo hi m \<and> expoSearch lo hi m < hi
     \<and> (expoSearch lo hi m = lo \<or> 2 powi (expoSearch lo hi m) \<le> m)
     \<and> (expoSearch lo hi m + 1 = hi \<or> m < 2 powi (expoSearch lo hi m + 1))"
proof (induction lo hi m rule: expoSearch.induct)
  case (1 lo hi m)
  let ?mid = "(lo + hi) div 2"
  show ?case
  proof (cases "hi - lo \<le> 1")
    case True
    with 1(3) show ?thesis by (subst (1 2 3 4 5 6) expoSearch.simps) simp
  next
    case gap: False
    then have mid: "lo < ?mid" "?mid < hi" by linarith+
    show ?thesis
    proof (cases "2 powi ?mid \<le> m")
      case True
      have eq: "expoSearch lo hi m = expoSearch ?mid hi m"
        using gap True by (subst expoSearch.simps) simp
      from 1(1)[OF gap True mid(2)] mid(1) True show ?thesis
        unfolding eq by auto
    next
      case False
      have eq: "expoSearch lo hi m = expoSearch lo ?mid m"
        using gap False by (subst expoSearch.simps) simp
      from 1(2)[OF gap False mid(1)] mid(2) False show ?thesis
        unfolding eq by auto
    qed
  qed
qed

lemma expo32_char:
  "- 126 \<le> expo32 m \<and> expo32 m \<le> 127
   \<and> (expo32 m = - 126 \<or> 2 powi (expo32 m) \<le> m)
   \<and> (expo32 m = 127 \<or> m < 2 powi (expo32 m + 1))"
  using expoSearch_char[of "-126" 128 m] by (auto simp: expo32_def)

lemma expo32_mono: "m \<le> m' \<Longrightarrow> expo32 m \<le> expo32 m'"
proof (rule ccontr)
  assume le: "m \<le> m'" and "\<not> expo32 m \<le> expo32 m'"
  then have gt: "expo32 m' + 1 \<le> expo32 m" by simp
  from expo32_char[of m] expo32_char[of m'] gt
  have a: "2 powi (expo32 m) \<le> m" and b: "m' < 2 powi (expo32 m' + 1)" by auto
  have "(2::real) powi (expo32 m' + 1) \<le> 2 powi (expo32 m)"
    using gt by (intro power_int_increasing) simp_all
  with a b le show False by linarith
qed

text \<open>Rounding a magnitude.\<close>

lemma roundTo_nonneg: "0 < q \<Longrightarrow> 0 \<le> m \<Longrightarrow> 0 \<le> roundTo q m"
proof -
  assume q: "0 < q" and m: "0 \<le> m"
  then have "0 \<le> m / q" by simp
  from rne_mono[OF this] have "0 \<le> rne (m / q)" by simp
  with q show ?thesis by (simp add: roundTo_def)
qed

lemma roundTo_mono: "0 < q \<Longrightarrow> a \<le> b \<Longrightarrow> roundTo q a \<le> roundTo q b"
proof -
  assume q: "0 < q" and ab: "a \<le> b"
  then have "a / q \<le> b / q" by (simp add: divide_right_mono)
  from rne_mono[OF this] q show ?thesis by (simp add: roundTo_def)
qed

lemma roundTo_multiple: "q \<noteq> 0 \<Longrightarrow> roundTo q (of_int k * q) = of_int k * q"
  by (simp add: roundTo_def)

lemma round32_roundMag: "round32 r = pack32 (r < 0) (roundMag \<bar>r\<bar>)"
  by (simp add: round32_def roundMag_def)

lemma roundMag_nonneg: "0 \<le> m \<Longrightarrow> 0 \<le> roundMag m"
  unfolding roundMag_def by (rule roundTo_nonneg) simp_all

lemma roundMag_upper:
  assumes "m < 2 powi (expo32 m + 1)"
  shows "roundMag m \<le> 2 powi (expo32 m + 1)"
proof -
  let ?q = "(2::real) powi (expo32 m - 23)"
  have q: "0 < ?q" by simp
  have split: "(2::real) powi (expo32 m + 1) = of_int (2 ^ 24) * ?q"
  proof -
    have "expo32 m + 1 = 24 + (expo32 m - 23)" by simp
    then have "(2::real) powi (expo32 m + 1) = 2 powi (24 + (expo32 m - 23))" by (simp only:)
    also have "\<dots> = 2 powi 24 * ?q" by (rule power_int_add) simp
    finally show ?thesis by simp
  qed
  have "m \<le> of_int (2 ^ 24) * ?q" using assms unfolding split by (rule less_imp_le)
  then have "roundTo ?q m \<le> roundTo ?q (of_int (2 ^ 24) * ?q)"
    by (intro roundTo_mono q)
  also have "\<dots> = of_int (2 ^ 24) * ?q" by (rule roundTo_multiple) simp
  finally show ?thesis unfolding roundMag_def split .
qed

lemma roundMag_lower:
  assumes "2 powi (expo32 m) \<le> m"
  shows "2 powi (expo32 m) \<le> roundMag m"
proof -
  let ?q = "(2::real) powi (expo32 m - 23)"
  have q: "0 < ?q" by simp
  have split: "(2::real) powi (expo32 m) = of_int (2 ^ 23) * ?q"
  proof -
    have "expo32 m = 23 + (expo32 m - 23)" by simp
    then have "(2::real) powi (expo32 m) = 2 powi (23 + (expo32 m - 23))" by (simp only:)
    also have "\<dots> = 2 powi 23 * ?q" by (rule power_int_add) simp
    finally show ?thesis by simp
  qed
  have "of_int (2 ^ 23) * ?q = roundTo ?q (of_int (2 ^ 23) * ?q)"
    by (rule roundTo_multiple[symmetric]) simp
  also have "\<dots> \<le> roundTo ?q m"
    using assms unfolding split by (intro roundTo_mono q)
  finally show ?thesis unfolding roundMag_def split .
qed

lemma roundMag_mono:
  assumes "m \<le> m'"
  shows "roundMag m \<le> roundMag m'"
proof (cases "expo32 m = expo32 m'")
  case True
  show ?thesis unfolding roundMag_def True using assms by (intro roundTo_mono) simp_all
next
  case False
  with expo32_mono[OF assms] have lt: "expo32 m + 1 \<le> expo32 m'" by simp
  from expo32_char[of m] expo32_char[of m'] lt
  have a: "m < 2 powi (expo32 m + 1)" and b: "2 powi (expo32 m') \<le> m'" by auto
  have "roundMag m \<le> 2 powi (expo32 m + 1)" using a by (rule roundMag_upper)
  also have "\<dots> \<le> 2 powi (expo32 m')" using lt by (intro power_int_increasing) simp_all
  also have "\<dots> \<le> roundMag m'" using b by (rule roundMag_lower)
  finally show ?thesis .
qed

lemma round32_not_NaN [simp]: "round32 r \<noteq> NaN"
  by (simp add: round32_def pack32_def)

lemma round32_mono:
  assumes "a \<le> b"
  shows "round32 a \<le> round32 b"
proof -
  have nn: "0 \<le> roundMag \<bar>r\<bar>" for r by (rule roundMag_nonneg) simp
  have big: "(0::real) < 2 powi 128" by simp
  consider (pos) "0 \<le> a" | (mixed) "a < 0" "0 \<le> b" | (neg) "a < 0" "b < 0" by linarith
  then show ?thesis
  proof cases
    case pos
    with assms have "roundMag \<bar>a\<bar> \<le> roundMag \<bar>b\<bar>" by (intro roundMag_mono) simp
    with pos assms show ?thesis by (simp add: round32_roundMag pack32_def)
  next
    case mixed
    with nn[of a] nn[of b] big show ?thesis
      by (simp add: round32_roundMag pack32_def del: power_int_numeral)
  next
    case neg
    with assms have "roundMag \<bar>b\<bar> \<le> roundMag \<bar>a\<bar>" by (intro roundMag_mono) simp
    with neg show ?thesis by (simp add: round32_roundMag pack32_def)
  qed
qed

text \<open>Values with a 24-bit significand and an exponent in range are not changed.\<close>

lemma roundMag_exact:
  assumes k: "0 \<le> k" "k < 2 ^ 24" and j: "- 149 \<le> j"
  shows "roundMag (of_int k * 2 powi j) = of_int k * 2 powi j"
proof -
  let ?m = "of_int k * (2::real) powi j"
  let ?e = "expo32 ?m"
  have le: "?e - 23 \<le> j"
  proof (rule ccontr)
    assume "\<not> ?e - 23 \<le> j"
    then have gt: "j + 24 \<le> ?e" by simp
    with j expo32_char[of ?m] have "2 powi ?e \<le> ?m" by auto
    moreover have "?m < of_int (2 ^ 24) * 2 powi j"
      using k(2) by (intro mult_strict_right_mono) (simp_all flip: of_int_less_iff)
    moreover have "of_int (2 ^ 24) * (2::real) powi j = 2 powi (24 + j)"
      by (subst power_int_add) simp_all
    moreover have "(2::real) powi (24 + j) \<le> 2 powi ?e"
      using gt by (intro power_int_increasing) simp_all
    ultimately show False by linarith
  qed
  have "j = (j - (?e - 23)) + (?e - 23)" by simp
  then have "(2::real) powi j = 2 powi ((j - (?e - 23)) + (?e - 23))" by (simp only:)
  also have "\<dots> = 2 powi (j - (?e - 23)) * 2 powi (?e - 23)" by (rule power_int_add) simp
  also have "(2::real) powi (j - (?e - 23)) = of_int (2 ^ nat (j - (?e - 23)))"
    using le by (simp add: power_int_def)
  finally have pw: "(2::real) powi j = of_int (2 ^ nat (j - (?e - 23))) * 2 powi (?e - 23)" .
  have eq: "?m = of_int (k * 2 ^ nat (j - (?e - 23))) * 2 powi (?e - 23)"
    by (subst pw) (simp only: of_int_mult mult.assoc)
  have "roundTo (2 powi (?e - 23)) ?m
      = roundTo (2 powi (?e - 23)) (of_int (k * 2 ^ nat (j - (?e - 23))) * 2 powi (?e - 23))"
    by (rule arg_cong[OF eq])
  also have "\<dots> = of_int (k * 2 ^ nat (j - (?e - 23))) * 2 powi (?e - 23)"
    by (rule roundTo_multiple) simp
  also have "\<dots> = ?m" by (rule eq[symmetric])
  finally show ?thesis unfolding roundMag_def .
qed

lemma round32_exact:
  assumes mag: "\<bar>r\<bar> = of_int k * 2 powi j" and k: "0 \<le> k" "k < 2 ^ 24"
    and j: "- 149 \<le> j" "j \<le> 104"
  shows "round32 r = Fin r"
proof -
  have "roundMag \<bar>r\<bar> = \<bar>r\<bar>" unfolding mag using k j(1) by (rule roundMag_exact)
  moreover have "\<bar>r\<bar> < 2 powi 128"
  proof -
    have "\<bar>r\<bar> < of_int (2 ^ 24) * 2 powi j"
      unfolding mag using k(2) by (intro mult_strict_right_mono) (simp_all flip: of_int_less_iff)
    also have "of_int (2 ^ 24) * (2::real) powi j = 2 powi (24 + j)"
      by (subst power_int_add) simp_all
    also have "\<dots> \<le> 2 powi 128" using j(2) by (intro power_int_increasing) simp_all
    finally show ?thesis .
  qed
  ultimately show ?thesis by (simp add: round32_roundMag pack32_def del: power_int_numeral)
qed

lemma round32_0 [simp]: "round32 0 = Fin 0"
  using round32_exact[of 0 0 0] by simp

lemma round32_int: "\<bar>k\<bar> < 2 ^ 24 \<Longrightarrow> round32 (of_int k) = Fin (of_int k)"
  using round32_exact[of "of_int k" "\<bar>k\<bar>" 0] by simp

lemma round32_dyadic:
  "\<bar>k\<bar> < 2 ^ 24 \<Longrightarrow> n \<le> 149 \<Longrightarrow> round32 (of_int k / 2 ^ n) = Fin (of_int k / 2 ^ n)"
  using round32_exact[of "of_int k / 2 ^ n" "\<bar>k\<bar>" "- int n"]
  by (simp add: power_int_minus field_simps)

text \<open>Unfolding these evaluates \<open>round32\<close> and the solver on numerals.\<close>

lemmas round32_eval = round32_def pack32_def roundTo_def expo32_def expoSearch.simps rne_def rneFrac_def

lemmas solver_eval = triangleCoeffs_def triangleParams_def Let_def
      computeClosestPointOnTriangle_def feq_def P3_def Float3_sub_def Float3_add_def
      Float3_mul_scalar_def sqrLength_def dot_def minus_float_def

section \<open>Order and sign of rounded values\<close>

lemma float_less_asym: "(a::float) < b \<Longrightarrow> \<not> b < a"
  by (cases a; cases b) auto

lemma float_less_irrefl: "\<not> (a::float) < a"
  by (cases a) auto

lemma round32_1 [simp]: "round32 1 = Fin 1"
  using round32_int[of 1] by simp

lemma round32_nonneg: "0 \<le> r \<Longrightarrow> Fin 0 \<le> round32 r"
  using round32_mono[of 0 r] by simp

lemma round32_nonpos: "r \<le> 0 \<Longrightarrow> round32 r \<le> Fin 0"
  using round32_mono[of r 0] by simp

lemma round32_unit:
  assumes "0 \<le> r" and "r \<le> 1"
  obtains v where "round32 r = Fin v" and "0 \<le> v" and "v \<le> 1"
proof -
  have lo: "Fin 0 \<le> round32 r" using assms(1) by (rule round32_nonneg)
  have hi: "round32 r \<le> Fin 1" using round32_mono[OF assms(2)] by simp
  show thesis
  proof (cases "round32 r")
    case (Fin v)
    with lo hi have "0 \<le> v" "v \<le> 1" by simp_all
    with Fin show thesis by (rule that)
  qed (use lo hi in simp_all)
qed

text \<open>Every rounded value is a multiple of \<open>2\<^sup>-\<^sup>1\<^sup>4\<^sup>9\<close>, so two different ones are at least that
  far apart and their difference does not round to zero.\<close>

lemma round32_grid:
  assumes "round32 r = Fin v"
  obtains k :: int where "v = of_int k * 2 powi (- 149)"
proof -
  let ?e = "expo32 \<bar>r\<bar>"
  let ?n = "rne (\<bar>r\<bar> / 2 powi (?e - 23))"
  have e: "- 126 \<le> ?e" using expo32_char[of "\<bar>r\<bar>"] by simp
  have "?e - 23 = (?e + 126) + (- 149)" by simp
  then have "(2::real) powi (?e - 23) = 2 powi ((?e + 126) + (- 149))" by (simp only:)
  also have "\<dots> = 2 powi (?e + 126) * 2 powi (- 149)" by (rule power_int_add) simp
  also have "(2::real) powi (?e + 126) = of_int (2 ^ nat (?e + 126))"
    using e by (simp add: power_int_def)
  finally have q: "(2::real) powi (?e - 23) = of_int (2 ^ nat (?e + 126)) * 2 powi (- 149)" .
  have mag: "roundTo (2 powi (?e - 23)) \<bar>r\<bar> = of_int (?n * 2 ^ nat (?e + 126)) * 2 powi (- 149)"
    unfolding roundTo_def by (subst (2) q) (simp only: of_int_mult mult.assoc)
  from assms have "v = (if r < 0 then - roundTo (2 powi (?e - 23)) \<bar>r\<bar>
                         else roundTo (2 powi (?e - 23)) \<bar>r\<bar>)"
    by (simp add: round32_def pack32_def split: if_splits)
  then have "v = of_int (if r < 0 then - (?n * 2 ^ nat (?e + 126)) else ?n * 2 ^ nat (?e + 126))
                   * 2 powi (- 149)"
    unfolding mag by simp
  then show thesis by (rule that)
qed

lemma round32_gap:
  assumes "round32 r = Fin u" and "round32 r' = Fin w" and "u < w"
  shows "Fin 0 < round32 (w - u)"
proof -
  from assms(1) obtain k where u: "u = of_int k * 2 powi (- 149)" by (rule round32_grid)
  from assms(2) obtain l where w: "w = of_int l * 2 powi (- 149)" by (rule round32_grid)
  have g: "(0::real) < 2 powi (- 149)" by simp
  from assms(3) have "of_int k * (2::real) powi (- 149) < of_int l * 2 powi (- 149)"
    by (simp only: u w)
  with g have "(of_int k :: real) < of_int l" by (simp only: mult_less_cancel_right_pos)
  then have "k + 1 \<le> l" by simp
  then have "(of_int (k + 1) :: real) \<le> of_int l" by (simp only: of_int_le_iff)
  then have "of_int (k + 1) * (2::real) powi (- 149) \<le> of_int l * 2 powi (- 149)"
    using g by (simp only: mult_le_cancel_right_pos)
  then have "2 powi (- 149) \<le> w - u" unfolding u w by (simp add: algebra_simps)
  from round32_mono[OF this] have "round32 (2 powi (- 149)) \<le> round32 (w - u)" .
  moreover have "round32 (2 powi (- 149)) = Fin (2 powi (- 149))"
    using round32_exact[of "2 powi (- 149)" 1 "- 149"]
    by (simp del: power_int_numeral_neg_numeral)
  ultimately have "Fin (2 powi (- 149)) \<le> round32 (w - u)" by simp
  then show ?thesis
  proof (cases "round32 (w - u)")
    case (Fin v)
    with \<open>Fin (2 powi (- 149)) \<le> round32 (w - u)\<close> have "2 powi (- 149) \<le> v"
      by (simp del: power_int_numeral_neg_numeral)
    with g have "0 < v" by (rule less_le_trans)
    with Fin show ?thesis by simp
  qed simp_all
qed

section \<open>The triangle solver\<close>

lemma float_le_trans: "(a::float) \<le> b \<Longrightarrow> b \<le> c \<Longrightarrow> a \<le> c"
  by (cases a; cases b; cases c) auto

lemma float_less_trans: "(a::float) < b \<Longrightarrow> b < c \<Longrightarrow> a < c"
  by (cases a; cases b; cases c) auto

lemma float_not_le: "(a::float) \<noteq> NaN \<Longrightarrow> b \<noteq> NaN \<Longrightarrow> \<not> a \<le> b \<Longrightarrow> b < a"
  by (cases a; cases b) auto

lemma float_add_not_NaN: "a \<noteq> NaN \<Longrightarrow> is_Fin b \<Longrightarrow> a + b \<noteq> NaN"
  by (cases a; cases b) auto

lemma float_sub_not_NaN: "a \<noteq> NaN \<Longrightarrow> is_Fin b \<Longrightarrow> a - b \<noteq> NaN"
  by (cases a; cases b) (auto simp: minus_float_def)

lemma float_mul_not_NaN: "is_Fin a \<Longrightarrow> is_Fin b \<Longrightarrow> a * b \<noteq> NaN"
  by (cases a; cases b) auto

lemma is_Fin_not_NaN: "is_Fin a \<Longrightarrow> a \<noteq> NaN"
  by (cases a) auto

text \<open>In the branch of Region 2 that divides \<open>-e\<close> by \<open>c\<close> the quotient is between 0 and 1.\<close>

lemma region2_quotient_clamp:
  assumes "\<not> c + e \<le> Fin 0" and "\<not> Fin 0 \<le> e"
  shows "clamp (- e / c) (Fin 0) (Fin 1) = - e / c"
proof (cases c)
  case c: (Fin rc)
  show ?thesis
  proof (cases e)
    case e: (Fin re)
    from assms(2) have neg: "re < 0" by (simp add: e)
    have sum: "0 < rc + re"
    proof (rule ccontr)
      assume "\<not> 0 < rc + re"
      then have "round32 (rc + re) \<le> Fin 0" by (intro round32_nonpos) simp
      with assms(1) show False by (simp add: c e)
    qed
    with neg have pos: "0 < rc" by linarith
    have "0 \<le> - re / rc" using neg pos by (simp add: field_simps)
    moreover have "- re / rc \<le> 1" using sum pos by (simp add: field_simps)
    ultimately obtain v where "round32 (- re / rc) = Fin v" "0 \<le> v" "v \<le> 1"
      by (rule round32_unit)
    with pos show ?thesis by (simp add: c e clamp_def)
  qed (use assms in \<open>simp_all add: c clamp_def\<close>)
qed (use assms in \<open>cases e; simp add: clamp_def\<close>)+

text \<open>
  Claim C4, amended. In Region 2 (\<open>s1 + t1 > det\<close>, \<open>s1 < 0\<close>) the solver computes: with
  \<open>tmp0 = b + d\<close> and \<open>tmp1 = c + e\<close>, if \<open>tmp1 > tmp0\<close> then \<open>s = 1\<close> when
  \<open>a - 2b + c \<le> tmp1 - tmp0\<close> and \<open>s = (tmp1 - tmp0) / (a - 2b + c)\<close> otherwise, and \<open>t = 1 - s\<close>;
  if not, \<open>s = 0\<close> and \<open>t = 1\<close> if \<open>tmp1 \<le> 0\<close>, else \<open>t = 0\<close> if \<open>e \<ge> 0\<close>, else
  \<open>t = clamp(-e / c, 0, 1)\<close>. This holds for all values of the coefficients, the infinities
  and NaN included.
\<close>

theorem region2_params:
  assumes "\<not> s1 + t1 \<le> det" and "s1 < Fin 0"
  shows "triangleParams a b c d e det s1 t1 = region2Amended a b c d e"
proof -
  have code: "triangleParams a b c d e det s1 t1 =
      (if b + d < c + e then
         (if a - Fin 2 * b + c \<le> c + e - (b + d) then Fin 1
          else (c + e - (b + d)) / (a - Fin 2 * b + c),
          Fin 1 - (if a - Fin 2 * b + c \<le> c + e - (b + d) then Fin 1
                   else (c + e - (b + d)) / (a - Fin 2 * b + c)))
       else if c + e \<le> Fin 0 then (Fin 0, Fin 1)
       else if Fin 0 \<le> e then (Fin 0, Fin 0)
       else (Fin 0, - e / c))"
    unfolding triangleParams_def Let_def by (simp only: assms if_True if_False)
  have spec: "region2Amended a b c d e =
      (if b + d < c + e then
         (if a - Fin 2 * b + c \<le> c + e - (b + d) then Fin 1
          else (c + e - (b + d)) / (a - Fin 2 * b + c),
          Fin 1 - (if a - Fin 2 * b + c \<le> c + e - (b + d) then Fin 1
                   else (c + e - (b + d)) / (a - Fin 2 * b + c)))
       else (Fin 0, if c + e \<le> Fin 0 then Fin 1
                    else if Fin 0 \<le> e then Fin 0
                    else clamp (- e / c) (Fin 0) (Fin 1)))"
    unfolding region2Amended_def Let_def by (rule refl)
  show ?thesis
  proof (cases "b + d < c + e")
    case True
    then show ?thesis unfolding code spec by (simp only: if_True)
  next
    case edge: False
    show ?thesis
    proof (cases "c + e \<le> Fin 0")
      case True
      with edge show ?thesis unfolding code spec by (simp only: if_True if_False)
    next
      case vertex: False
      show ?thesis
      proof (cases "Fin 0 \<le> e")
        case True
        with edge vertex show ?thesis unfolding code spec by (simp only: if_True if_False)
      next
        case False
        with edge vertex region2_quotient_clamp[OF vertex False] show ?thesis
          unfolding code spec by (simp only: if_True if_False)
      qed
    qed
  qed
qed

theorem region2_params_witness:
  "triangleParams (Fin 1) (Fin 0) (Fin 1) (Fin (1/2)) (Fin (-2)) (Fin 1) (Fin (-1/2)) (Fin 2)
    = region2Amended (Fin 1) (Fin 0) (Fin 1) (Fin (1/2)) (Fin (-2))"
proof -
  have h1: "\<not> Fin (-1/2) + Fin 2 \<le> Fin 1" by (simp add: round32_eval)
  have h2: "Fin (-1/2) < Fin 0" by simp
  show ?thesis by (rule region2_params[OF h1 h2])
qed

text \<open>
  Claim C4 as stated fails on the spec's own Region 2 scenario, triangle
  \<open>(0,0,0), (1,0,0), (0,1,0)\<close> and query \<open>(-1/2, 2, 0)\<close>: the solver takes \<open>t = 1\<close> (vertex
  \<open>v2\<close>), the claim says \<open>t = 0\<close>.
\<close>

theorem region2_claim_counterexample:
  "triangleCoeffs (P3 0 0 0) (P3 1 0 0) (P3 0 1 0) (P3 (-1/2) 2 0)
      = (Fin 1, Fin 0, Fin 1, Fin (1/2), Fin (-2), Fin 1, Fin (-1/2), Fin 2)
   \<and> \<not> Fin (-1/2) + Fin 2 \<le> Fin 1 \<and> Fin (-1/2) < Fin 0
   \<and> triangleParams (Fin 1) (Fin 0) (Fin 1) (Fin (1/2)) (Fin (-2)) (Fin 1) (Fin (-1/2)) (Fin 2)
        = (Fin 0, Fin 1)
   \<and> region2Claimed (Fin 1) (Fin 0) (Fin 1) (Fin (1/2)) (Fin (-2)) = (Fin 0, Fin 0)
   \<and> computeClosestPointOnTriangle (P3 0 0 0) (P3 1 0 0) (P3 0 1 0) (P3 (-1/2) 2 0)
        = Inr (P3 0 1 0, Fin (5/4))"
  by (simp add: solver_eval region2Claimed_def clamp_def round32_eval)

text \<open>
  The edge case of Region 2 in binary32. For the triangle \<open>(0,0,0), (2891,4080,919),
  (2891.5,4080,919)\<close> and the query \<open>(1668,-6368,3165)\<close> the rounded coefficients put the solver
  in Region 2 with \<open>tmp1 - tmp0 = 612\<close> and \<open>a - 2b + c = -4\<close>: the solver takes \<open>s = 1\<close>, where
  \<open>clamp((tmp1 - tmp0) / (a - 2b + c), 0, 1)\<close> is 0.
\<close>

lemma region2_rounded_denominator:
  "triangleCoeffs (P3 0 0 0) (P3 2891 4080 919) (P3 (5783/2) 4080 919) (P3 1668 (-6368) 3165)
      = (Fin 25848840, Fin 25850288, Fin 25851732, Fin 18250616, Fin 18249784,
         Fin (-134217728), Fin (-47882174464), Fin 47915728896)
   \<and> \<not> Fin (-47882174464) + Fin 47915728896 \<le> Fin (-134217728)
   \<and> Fin (-47882174464) < Fin 0
   \<and> Fin 25851732 + Fin 18249784 - (Fin 25850288 + Fin 18250616) = Fin 612
   \<and> Fin 25848840 - Fin 2 * Fin 25850288 + Fin 25851732 = Fin (-4)
   \<and> triangleParams (Fin 25848840) (Fin 25850288) (Fin 25851732) (Fin 18250616) (Fin 18249784)
        (Fin (-134217728)) (Fin (-47882174464)) (Fin 47915728896) = (Fin 1, Fin 0)
   \<and> clamp (Fin 612 / Fin (-4)) (Fin 0) (Fin 1) = Fin 0"
  by (simp add: solver_eval clamp_def round32_eval)

text \<open>
  Claim C3 on the code. Triangle \<open>(0,0,0), (1,0,0), (2,1,0)\<close> and query \<open>(3,-1,0)\<close> fall in
  Region 6 with \<open>tmp1 > tmp0\<close>. The claim gives \<open>t = 1/2\<close> and \<open>s = 1 - t = 1/2\<close>, the point
  \<open>(3/2, 1/2, 0)\<close> on edge \<open>v1\<close>--\<open>v2\<close>. The solver computes \<open>s2 = 1 - s1 = -4\<close> and returns
  \<open>(-3, 1/2, 0)\<close>, which is not on the triangle. All the numbers involved are binary32
  values and no operation rounds.
\<close>

theorem region6_edge_evaluation:
  "triangleCoeffs (P3 0 0 0) (P3 1 0 0) (P3 2 1 0) (P3 3 (-1) 0)
      = (Fin 1, Fin 2, Fin 5, Fin (-3), Fin (-5), Fin 1, Fin 5, Fin (-1))
   \<and> \<not> Fin 5 + Fin (-1) \<le> Fin 1 \<and> \<not> Fin 5 < Fin 0 \<and> Fin (-1) < Fin 0
   \<and> triangleParams (Fin 1) (Fin 2) (Fin 5) (Fin (-3)) (Fin (-5)) (Fin 1) (Fin 5) (Fin (-1))
        = (Fin (-4), Fin (1/2))
   \<and> region6Claimed (Fin 1) (Fin 2) (Fin 5) (Fin (-3)) (Fin (-5)) = (Fin (1/2), Fin (1/2))
   \<and> computeClosestPointOnTriangle (P3 0 0 0) (P3 1 0 0) (P3 2 1 0) (P3 3 (-1) 0)
        = Inr (P3 (-3) (1/2) 0, Fin (153/4))"
  by (simp add: solver_eval region6Claimed_def clamp_def round32_eval)

section \<open>The divisions of the triangle solver\<close>

lemma divisor_guarded:
  assumes "is_Fin p" and "is_Fin r" and "\<not> p \<le> - r" and "r < Fin 0 \<or> \<not> Fin 0 \<le> r"
  shows "Fin 0 < p"
  using assms by (cases p; cases r) auto

lemma divisor_sum_guarded:
  assumes "is_Fin p" and "is_Fin r" and "\<not> p + r \<le> Fin 0" and "\<not> Fin 0 \<le> r"
  shows "Fin 0 < p"
proof -
  from assms(1,2) obtain rp rr where p: "p = Fin rp" and r: "r = Fin rr"
    by (auto simp: is_Fin_def)
  from assms(4) have neg: "rr < 0" by (simp add: r)
  have "0 < rp + rr"
  proof (rule ccontr)
    assume "\<not> 0 < rp + rr"
    then have "round32 (rp + rr) \<le> Fin 0" by (intro round32_nonpos) simp
    with assms(3) show False by (simp add: p r)
  qed
  with neg show ?thesis by (simp add: p)
qed

lemma float_sum_nonneg:
  assumes "\<not> s1 < Fin 0" and "\<not> t1 < Fin 0" and "s1 + t1 \<noteq> NaN"
  shows "Fin 0 \<le> s1 + t1"
proof (cases s1)
  case s: (Fin u)
  show ?thesis
  proof (cases t1)
    case t: (Fin w)
    from assms(1,2) have "0 \<le> u + w" by (simp add: s t)
    then have "Fin 0 \<le> round32 (u + w)" by (rule round32_nonneg)
    then show ?thesis by (simp add: s t)
  next
    case PInf then show ?thesis by (simp add: s)
  next
    case NInf with assms(2) show ?thesis by simp
  next
    case NaN with assms(3) show ?thesis by (simp add: s)
  qed
next
  case s: PInf
  show ?thesis using assms(2,3) by (cases t1) (simp_all add: s)
next
  case NInf with assms(1) show ?thesis by simp
next
  case NaN with assms(3) show ?thesis by simp
qed

lemma det_guarded:
  assumes "s1 + t1 \<le> det" and "\<not> s1 < Fin 0" and "\<not> t1 < Fin 0" and "\<not> feq det (Fin 0)"
  shows "Fin 0 < det"
proof -
  from assms(1) have "s1 + t1 \<noteq> NaN" by (cases "s1 + t1") simp_all
  with assms(2,3) have "Fin 0 \<le> s1 + t1" by (intro float_sum_nonneg)
  from float_le_trans[OF this assms(1)] have "Fin 0 \<le> det" .
  with assms(4) show ?thesis by (cases det) (simp_all add: feq_def)
qed

lemma edge_numerator_positive:
  assumes "is_Fin p" "is_Fin r" "is_Fin p'" "is_Fin r'" and "p + r < p' + r'"
  shows "Fin 0 < (p' + r') - (p + r)"
proof -
  from assms(1-4) obtain a b a' b' where v: "p = Fin a" "r = Fin b" "p' = Fin a'" "r' = Fin b'"
    by (auto simp: is_Fin_def)
  show ?thesis
  proof (cases "round32 (a + b)")
    case lo: (Fin u)
    show ?thesis
    proof (cases "round32 (a' + b')")
      case hi: (Fin w)
      from assms(5) have "u < w" by (simp add: v lo hi)
      from round32_gap[OF lo hi this] show ?thesis by (simp add: v lo hi minus_float_def)
    qed (use assms(5) in \<open>simp_all add: v lo minus_float_def\<close>)
  next
    case PInf
    with assms(5) show ?thesis by (cases "round32 (a' + b')") (simp_all add: v)
  next
    case NInf
    with assms(5) show ?thesis by (cases "round32 (a' + b')") (simp_all add: v minus_float_def)
  next
    case NaN
    then show ?thesis by simp
  qed
qed

lemma denominator_not_NaN:
  assumes "is_Fin a" "is_Fin b" "is_Fin c"
  shows "a - Fin 2 * b + c \<noteq> NaN"
proof -
  have "Fin 2 * b \<noteq> NaN" using assms(2) by (intro float_mul_not_NaN) simp_all
  then have "a - Fin 2 * b \<noteq> NaN"
    using assms(1) by (cases a; cases "Fin 2 * b") (simp_all add: minus_float_def)
  then show ?thesis using assms(3) by (rule float_add_not_NaN)
qed

lemma edge_division_guarded:
  assumes "is_Fin p" "is_Fin r" "is_Fin p'" "is_Fin r'" and "p + r < p' + r'"
    and "denom \<noteq> NaN" and "\<not> denom \<le> (p' + r') - (p + r)"
  shows "Fin 0 < denom \<and> Fin 0 < (p' + r') - (p + r) \<and> (p' + r') - (p + r) < denom"
proof -
  have num: "Fin 0 < (p' + r') - (p + r)" using assms(1-5) by (rule edge_numerator_positive)
  then have "(p' + r') - (p + r) \<noteq> NaN" by (cases "(p' + r') - (p + r)") simp_all
  from float_not_le[OF assms(6) this assms(7)] have lt: "(p' + r') - (p + r) < denom" .
  from float_less_trans[OF num lt] num lt show ?thesis by simp
qed

lemma region1_division_guarded:
  assumes "num \<noteq> NaN" and "denom \<noteq> NaN" and "\<not> num \<le> Fin 0" and "\<not> denom \<le> num"
  shows "Fin 0 < denom \<and> Fin 0 < num \<and> num < denom"
proof -
  have z: "Fin 0 \<noteq> NaN" by simp
  from float_not_le[OF assms(1) z assms(3)] have num: "Fin 0 < num" .
  from float_not_le[OF assms(2,1,4)] have lt: "num < denom" .
  from float_less_trans[OF num lt] num lt show ?thesis by simp
qed

text \<open>
  Claim C9, amended. When the coefficients \<open>a\<close>, \<open>b\<close>, \<open>c\<close>, \<open>d\<close>, \<open>e\<close> are finite and the guard
  \<open>det == 0\<close> has not thrown, every division the solver executes has a positive divisor,
  and a division \<open>num / denom\<close> is executed only with \<open>0 < num < denom\<close>. The tests on the
  branch taken give this; \<open>det \<noteq> 0\<close> does not give \<open>a > 0\<close> or \<open>c > 0\<close> in binary32.
\<close>

theorem divisions_positive:
  assumes "is_Fin a" and "is_Fin b" and "is_Fin c" and "is_Fin d" and "is_Fin e"
    and "\<not> feq det (Fin 0)"
  shows "\<forall>(site, n, v) \<in> set (triangleDivisions a b c d e det s1 t1).
           Fin 0 < v \<and> (site = Num_over_Denom \<longrightarrow> Fin 0 < n \<and> n < v)"
proof -
  note fin = assms(1-5)
  have A: "Fin 0 < a" if "\<not> a \<le> - d" "d < Fin 0 \<or> \<not> Fin 0 \<le> d"
    using fin(1,4) that by (rule divisor_guarded)
  have A': "Fin 0 < a" if "\<not> a + d \<le> Fin 0" "\<not> Fin 0 \<le> d"
    using fin(1,4) that by (rule divisor_sum_guarded)
  have C: "Fin 0 < c" if "\<not> c \<le> - e" "e < Fin 0 \<or> \<not> Fin 0 \<le> e"
    using fin(3,5) that by (rule divisor_guarded)
  have C': "Fin 0 < c" if "\<not> c + e \<le> Fin 0" "\<not> Fin 0 \<le> e"
    using fin(3,5) that by (rule divisor_sum_guarded)
  have D: "Fin 0 < det" if "s1 + t1 \<le> det" "\<not> s1 < Fin 0" "\<not> t1 < Fin 0"
    using that assms(6) by (rule det_guarded)
  have dn: "a - Fin 2 * b + c \<noteq> NaN" using fin(1,2,3) by (rule denominator_not_NaN)
  have E2: "Fin 0 < a - Fin 2 * b + c \<and> Fin 0 < c + e - (b + d)
            \<and> c + e - (b + d) < a - Fin 2 * b + c"
    if "b + d < c + e" "\<not> a - Fin 2 * b + c \<le> c + e - (b + d)"
    using fin(2,4,3,5) that(1) dn that(2) by (rule edge_division_guarded)
  have E6: "Fin 0 < a - Fin 2 * b + c \<and> Fin 0 < a + d - (b + e)
            \<and> a + d - (b + e) < a - Fin 2 * b + c"
    if "b + e < a + d" "\<not> a - Fin 2 * b + c \<le> a + d - (b + e)"
    using fin(2,5,1,4) that(1) dn that(2) by (rule edge_division_guarded)
  have nn: "c + e - b - d \<noteq> NaN"
    using fin by (intro float_sub_not_NaN float_add_not_NaN is_Fin_not_NaN)
  have E1: "Fin 0 < a - Fin 2 * b + c \<and> Fin 0 < c + e - b - d
            \<and> c + e - b - d < a - Fin 2 * b + c"
    if "\<not> c + e - b - d \<le> Fin 0" "\<not> a - Fin 2 * b + c \<le> c + e - b - d"
    using nn dn that by (rule region1_division_guarded)
  show ?thesis
    unfolding triangleDivisions_def Let_def
    using A A' C C' D E2 E6 E1 by (simp split: if_splits)
qed

theorem divisions_positive_witness:
  "triangleDivisions (Fin 1) (Fin 2) (Fin 5) (Fin (-3)) (Fin (-5)) (Fin 1) (Fin 5) (Fin (-1))
       = [(Num_over_Denom, Fin 1, Fin 2)]
   \<and> Fin 0 < Fin 2 \<and> Fin 0 < Fin 1 \<and> Fin 1 < Fin 2"
proof -
  have nz: "\<not> feq (Fin 1) (Fin 0)" by (simp add: feq_def)
  have divs: "triangleDivisions (Fin 1) (Fin 2) (Fin 5) (Fin (-3)) (Fin (-5)) (Fin 1) (Fin 5)
                (Fin (-1)) = [(Num_over_Denom, Fin 1, Fin 2)]"
    by (simp add: triangleDivisions_def Let_def minus_float_def round32_eval)
  from divisions_positive[where a = "Fin 1" and b = "Fin 2" and c = "Fin 5" and d = "Fin (-3)"
      and e = "Fin (-5)" and det = "Fin 1" and ?s1.0 = "Fin 5" and ?t1.0 = "Fin (-1)", OF _ _ _ _ _ nz]
  show ?thesis unfolding divs by simp
qed

text \<open>
  Claim C9 as stated fails in binary32. For \<open>v1 = (2\<^sup>7\<^sup>0, 0, 0)\<close> and \<open>v2 = (2\<^sup>7\<^sup>0, 1, 0)\<close> the
  products overflow, \<open>a\<close>, \<open>b\<close>, \<open>c\<close> are infinite and \<open>det\<close> is NaN, which passes the guard;
  in Region 1 the solver divides NaN by NaN. For \<open>v1 = (2\<^sup>-\<^sup>7\<^sup>6, 0, 0)\<close> and \<open>v2 = (2\<^sup>6\<^sup>0, 1, 0)\<close> the
  product \<open>2\<^sup>-\<^sup>1\<^sup>5\<^sup>2\<close> underflows: \<open>a = 0\<close> although \<open>det = -2\<^sup>-\<^sup>3\<^sup>2\<close> is not 0.
\<close>

theorem divisions_claim_counterexample:
  "triangleCoeffs (P3 0 0 0) (P3 (2 ^ 70) 0 0) (P3 (2 ^ 70) 1 0) (P3 0 0 0)
      = (PInf, PInf, PInf, Fin 0, Fin 0, NaN, NaN, NaN)
   \<and> \<not> feq NaN (Fin 0)
   \<and> triangleDivisions PInf PInf PInf (Fin 0) (Fin 0) NaN NaN NaN = [(Num_over_Denom, NaN, NaN)]
   \<and> \<not> Fin 0 < (NaN :: float)
   \<and> triangleCoeffs (P3 0 0 0) (P3 (1 / 2 ^ 76) 0 0) (P3 (2 ^ 60) 1 0) (P3 0 0 0)
      = (Fin 0, Fin (1 / 2 ^ 16), Fin (2 ^ 120), Fin 0, Fin 0, Fin (- (1 / 2 ^ 32)), Fin 0, Fin 0)
   \<and> \<not> feq (Fin (- (1 / 2 ^ 32))) (Fin 0)
   \<and> \<not> Fin 0 < Fin 0"
  by (simp add: triangleCoeffs_def triangleDivisions_def P3_def Float3_sub_def dot_def
      minus_float_def feq_def Let_def round32_eval)

section \<open>The distance to a cube\<close>

text \<open>
  Claim C5 on the code. The cube has centre \<open>(2\<^sup>2\<^sup>4, 0, 0)\<close> and half-width 1, the query point is
  \<open>(1/2, 0, 0)\<close> and the point \<open>(2\<^sup>2\<^sup>4 - 1, 0, 0)\<close> is inside the cube, at squared distance
  \<open>16777214.5\<^sup>2 = 281474926379010.25\<close> from the query point. The subtraction
  \<open>1/2 - 2\<^sup>2\<^sup>4\<close> rounds to \<open>-2\<^sup>2\<^sup>4\<close>, and \<open>computeSqrDistanceToBounds\<close> returns
  \<open>281474943156224\<close>, which is more than that squared distance, and more than the squared
  distance as \<open>sqrLength\<close> computes it.
\<close>

theorem sqrDistanceToBounds_exceeds:
  "insideCube (P3 16777215 0 0) \<lparr>center = P3 16777216 0 0, halfWidth = Fin 1\<rparr>
   \<and> computeSqrDistanceToBounds (P3 (1/2) 0 0) \<lparr>center = P3 16777216 0 0, halfWidth = Fin 1\<rparr>
        = Fin 281474943156224
   \<and> exactSqrDistance (P3 (1/2) 0 0) (P3 16777215 0 0) = 1125899705516041 / 4
   \<and> sqrLength (Float3_sub (P3 (1/2) 0 0) (P3 16777215 0 0)) = Fin 281474909601792
   \<and> \<not> computeSqrDistanceToBounds (P3 (1/2) 0 0) \<lparr>center = P3 16777216 0 0, halfWidth = Fin 1\<rparr>
          \<le> Fin (exactSqrDistance (P3 (1/2) 0 0) (P3 16777215 0 0))
   \<and> \<not> computeSqrDistanceToBounds (P3 (1/2) 0 0) \<lparr>center = P3 16777216 0 0, halfWidth = Fin 1\<rparr>
          \<le> sqrLength (Float3_sub (P3 (1/2) 0 0) (P3 16777215 0 0))"
proof -
  let ?B = "\<lparr>center = P3 16777216 0 0, halfWidth = Fin 1\<rparr>"
  have i: "insideCube (P3 16777215 0 0) ?B"
    by (simp add: insideCube_def P3_def Float3_abs_def Float3_sub_def minus_float_def Let_def
        round32_eval)
  have b: "computeSqrDistanceToBounds (P3 (1/2) 0 0) ?B = Fin 281474943156224"
    by (simp add: computeSqrDistanceToBounds_def P3_def Float3_abs_def Float3_sub_def
        Float3_sub_scalar_def sqrLength_def dot_def std_max_def minus_float_def Let_def
        round32_eval)
  have e: "exactSqrDistance (P3 (1/2) 0 0) (P3 16777215 0 0) = 1125899705516041 / 4"
    by (simp add: exactSqrDistance_def P3_def)
  have f: "sqrLength (Float3_sub (P3 (1/2) 0 0) (P3 16777215 0 0)) = Fin 281474909601792"
    by (simp add: P3_def Float3_sub_def sqrLength_def dot_def minus_float_def round32_eval)
  show ?thesis unfolding b e f using i by simp
qed

section \<open>Collinear faces\<close>

text \<open>
  Claim C7 on the code. The four vertices \<open>(0,0,0)\<close>, \<open>(791,791,791)\<close>, \<open>(2373,2373,2373)\<close>,
  \<open>(1582,1582,1582)\<close> are on a line. For the first triangle of the quadrilateral the sum
  \<open>c = 3 * 2373\<^sup>2 = 16893387\<close> rounds to \<open>16893388\<close> and the determinant comes out as \<open>2097152\<close>, not
  0; the second triangle has the same determinant. The constructor accepts the mesh, no
  exception is raised, and the query from \<open>(1,0,0)\<close> returns the vertex \<open>(0,0,0)\<close>.
\<close>

theorem collinear_face_not_detected:
  "collinear3 (P3 0 0 0) (P3 791 791 791) (P3 2373 2373 2373)
   \<and> collinear3 (P3 2373 2373 2373) (P3 1582 1582 1582) (P3 0 0 0)
   \<and> triangleCoeffs (P3 0 0 0) (P3 791 791 791) (P3 2373 2373 2373) (P3 1 0 0)
        = (Fin 1877043, Fin 5631129, Fin 16893388, Fin (-791), Fin (-2373), Fin 2097152,
           Fin 0, Fin 0)
   \<and> computeClosestPointOnTriangle (P3 0 0 0) (P3 791 791 791) (P3 2373 2373 2373) (P3 1 0 0)
        = Inr (P3 0 0 0, Fin 1)
   \<and> computeClosestPointOnTriangle (P3 2373 2373 2373) (P3 1582 1582 1582) (P3 0 0 0) (P3 1 0 0)
        = Inr (P3 2373 2373 2373, Fin 16888642)
   \<and> ImplCtor \<lparr>getVertices = [P3 0 0 0, P3 791 791 791, P3 2373 2373 2373, P3 1582 1582 1582],
                getFaces = [\<lparr>vertexIds = [0, 1, 2, 3]\<rparr>]\<rparr>
        = Inr \<lparr>m_vertices = [P3 0 0 0, P3 791 791 791, P3 2373 2373 2373, P3 1582 1582 1582],
               m_faces = [\<lparr>vertexIds = [0, 1, 2, 3]\<rparr>], m_partitionedSpace = None\<rparr>
   \<and> (\<forall>tie. query tie
          \<lparr>m_vertices = [P3 0 0 0, P3 791 791 791, P3 2373 2373 2373, P3 1582 1582 1582],
           m_faces = [\<lparr>vertexIds = [0, 1, 2, 3]\<rparr>], m_partitionedSpace = None\<rparr>
          (P3 1 0 0) PInf = Inr (P3 0 0 0))"
proof -
  let ?vs = "[P3 0 0 0, P3 791 791 791, P3 2373 2373 2373, P3 1582 1582 1582]"
  let ?q = "P3 1 0 0"
  have c1: "collinear3 (P3 0 0 0) (P3 791 791 791) (P3 2373 2373 2373)"
    and c2: "collinear3 (P3 2373 2373 2373) (P3 1582 1582 1582) (P3 0 0 0)"
    by (simp_all add: collinear3_def P3_def Let_def)
  have co: "triangleCoeffs (P3 0 0 0) (P3 791 791 791) (P3 2373 2373 2373) ?q
        = (Fin 1877043, Fin 5631129, Fin 16893388, Fin (-791), Fin (-2373), Fin 2097152,
           Fin 0, Fin 0)"
    by (simp add: triangleCoeffs_def P3_def Float3_sub_def dot_def minus_float_def Let_def
        round32_eval)
  have r1: "computeClosestPointOnTriangle (P3 0 0 0) (P3 791 791 791) (P3 2373 2373 2373) ?q
        = Inr (P3 0 0 0, Fin 1)"
    by (simp add: solver_eval round32_eval)
  have r2: "computeClosestPointOnTriangle (P3 2373 2373 2373) (P3 1582 1582 1582) (P3 0 0 0) ?q
        = Inr (P3 2373 2373 2373, Fin 16888642)"
    by (simp add: solver_eval round32_eval)
  have look: "vertexAt ?vs 0 = Inr (P3 0 0 0)" "vertexAt ?vs 1 = Inr (P3 791 791 791)"
    "vertexAt ?vs 2 = Inr (P3 2373 2373 2373)" "vertexAt ?vs 3 = Inr (P3 1582 1582 1582)"
    by (simp_all add: vertexAt_def)
  have face: "computeClosestPointOnFace \<lparr>vertexIds = [0, 1, 2, 3]\<rparr> ?vs ?q = Inr (P3 0 0 0, Fin 1)"
    by (simp add: computeClosestPointOnFace_def bindE_def look r1 r2)
  have ctor: "ImplCtor \<lparr>getVertices = ?vs, getFaces = [\<lparr>vertexIds = [0, 1, 2, 3]\<rparr>]\<rparr>
        = Inr \<lparr>m_vertices = ?vs, m_faces = [\<lparr>vertexIds = [0, 1, 2, 3]\<rparr>],
               m_partitionedSpace = None\<rparr>"
    by (simp add: ImplCtor_def minSpacePartitioningFaces_def P3_def)
  have qu: "query tie \<lparr>m_vertices = ?vs, m_faces = [\<lparr>vertexIds = [0, 1, 2, 3]\<rparr>],
               m_partitionedSpace = None\<rparr> ?q PInf = Inr (P3 0 0 0)" for tie
    by (simp add: query_def processMesh_def reduceClosestPointOnFace_def bindE_def face)
  from c1 c2 co r1 r2 ctor qu show ?thesis by (intro conjI allI)
qed

section \<open>The face solver and the empty face list\<close>

text \<open>
  Claim C6. A face of arity other than 3 or 4 raises \<open>UnsupportedArity\<close>. A triangle face
  returns the triangle solver's result on \<open>(v0, v1, v2)\<close>. A quadrilateral face, when the
  solver succeeds on \<open>(v0, v1, v2)\<close> with \<open>r1\<close> and on \<open>(v2, v3, v0)\<close> with \<open>r2\<close>, returns the
  one with the smaller squared distance, and \<open>r1\<close> when the two squared distances are equal.
\<close>

theorem face_solver_dispatch:
  "(length (vertexIds face) \<noteq> 3 \<and> length (vertexIds face) \<noteq> 4
      \<longrightarrow> computeClosestPointOnFace face vertices q = Inl UnsupportedArity)
   \<and> (vertexIds face = [i0, i1, i2]
        \<and> vertexAt vertices i0 = Inr v0 \<and> vertexAt vertices i1 = Inr v1
        \<and> vertexAt vertices i2 = Inr v2
      \<longrightarrow> computeClosestPointOnFace face vertices q = computeClosestPointOnTriangle v0 v1 v2 q)
   \<and> (vertexIds face = [j0, j1, j2, j3]
        \<and> vertexAt vertices j0 = Inr w0 \<and> vertexAt vertices j1 = Inr w1
        \<and> vertexAt vertices j2 = Inr w2 \<and> vertexAt vertices j3 = Inr w3
        \<and> computeClosestPointOnTriangle w0 w1 w2 q = Inr r1
        \<and> computeClosestPointOnTriangle w2 w3 w0 q = Inr r2
      \<longrightarrow> (\<exists>r. computeClosestPointOnFace face vertices q = Inr r
               \<and> (snd r2 < snd r1 \<longrightarrow> r = r2)
               \<and> (snd r1 < snd r2 \<longrightarrow> r = r1)
               \<and> (snd r1 = snd r2 \<longrightarrow> r = r1)))"
proof (intro conjI impI)
  assume "length (vertexIds face) \<noteq> 3 \<and> length (vertexIds face) \<noteq> 4"
  then have "length (vertexIds face) < 3 \<or> 4 < length (vertexIds face)" by arith
  then show "computeClosestPointOnFace face vertices q = Inl UnsupportedArity"
    by (simp add: computeClosestPointOnFace_def)
next
  assume "vertexIds face = [i0, i1, i2]
        \<and> vertexAt vertices i0 = Inr v0 \<and> vertexAt vertices i1 = Inr v1
        \<and> vertexAt vertices i2 = Inr v2"
  then show "computeClosestPointOnFace face vertices q = computeClosestPointOnTriangle v0 v1 v2 q"
    by (simp add: computeClosestPointOnFace_def bindE_def split: sum.splits)
next
  assume h: "vertexIds face = [j0, j1, j2, j3]
        \<and> vertexAt vertices j0 = Inr w0 \<and> vertexAt vertices j1 = Inr w1
        \<and> vertexAt vertices j2 = Inr w2 \<and> vertexAt vertices j3 = Inr w3
        \<and> computeClosestPointOnTriangle w0 w1 w2 q = Inr r1
        \<and> computeClosestPointOnTriangle w2 w3 w0 q = Inr r2"
  then have "computeClosestPointOnFace face vertices q
               = Inr (if snd r2 < snd r1 then r2 else r1)"
    by (simp add: computeClosestPointOnFace_def bindE_def)
  then show "\<exists>r. computeClosestPointOnFace face vertices q = Inr r
               \<and> (snd r2 < snd r1 \<longrightarrow> r = r2)
               \<and> (snd r1 < snd r2 \<longrightarrow> r = r1)
               \<and> (snd r1 = snd r2 \<longrightarrow> r = r1)"
    using float_less_asym[of "snd r1" "snd r2"] float_less_irrefl[of "snd r2"] by auto
qed

text \<open>
  The folded quadrilateral \<open>(0,0,0), (1,0,1), (0,1,0), (-1,0,1)\<close> seen from \<open>(0,0,2)\<close>: the
  two triangles give different points at the same squared distance 2, and the face solver
  returns the first.
\<close>

theorem face_solver_dispatch_witness:
  "computeClosestPointOnFace \<lparr>vertexIds = [0, 1, 2, 3]\<rparr>
      [P3 0 0 0, P3 1 0 1, P3 0 1 0, P3 (-1) 0 1] (P3 0 0 2) = Inr (P3 1 0 1, Fin 2)
   \<and> computeClosestPointOnTriangle (P3 0 1 0) (P3 (-1) 0 1) (P3 0 0 0) (P3 0 0 2)
        = Inr (P3 (-1) 0 1, Fin 2)
   \<and> computeClosestPointOnFace \<lparr>vertexIds = [0, 1, 2, 3, 0]\<rparr>
      [P3 0 0 0, P3 1 0 1, P3 0 1 0, P3 (-1) 0 1] (P3 0 0 2) = Inl UnsupportedArity
   \<and> computeClosestPointOnFace \<lparr>vertexIds = [0, 1, 2]\<rparr>
      [P3 0 0 0, P3 1 0 1, P3 0 1 0, P3 (-1) 0 1] (P3 0 0 2) = Inr (P3 1 0 1, Fin 2)"
proof -
  let ?vs = "[P3 0 0 0, P3 1 0 1, P3 0 1 0, P3 (-1) 0 1]"
  let ?q = "P3 0 0 2"
  have look: "vertexAt ?vs 0 = Inr (P3 0 0 0)" "vertexAt ?vs 1 = Inr (P3 1 0 1)"
    "vertexAt ?vs 2 = Inr (P3 0 1 0)" "vertexAt ?vs 3 = Inr (P3 (-1) 0 1)"
    by (simp_all add: vertexAt_def)
  have r1: "computeClosestPointOnTriangle (P3 0 0 0) (P3 1 0 1) (P3 0 1 0) ?q
              = Inr (P3 1 0 1, Fin 2)"
    by (simp add: solver_eval round32_eval)
  have r2: "computeClosestPointOnTriangle (P3 0 1 0) (P3 (-1) 0 1) (P3 0 0 0) ?q
              = Inr (P3 (-1) 0 1, Fin 2)"
    by (simp add: solver_eval round32_eval)
  have quad: "computeClosestPointOnFace \<lparr>vertexIds = [0, 1, 2, 3]\<rparr> ?vs ?q = Inr (P3 1 0 1, Fin 2)"
    using face_solver_dispatch[of "\<lparr>vertexIds = [0, 1, 2, 3]\<rparr>" ?vs ?q 0 0 0 undefined undefined undefined
        0 1 2 3 "P3 0 0 0" "P3 1 0 1" "P3 0 1 0" "P3 (-1) 0 1" "(P3 1 0 1, Fin 2)" "(P3 (-1) 0 1, Fin 2)"]
      look r1 r2 by auto
  have five: "computeClosestPointOnFace \<lparr>vertexIds = [0, 1, 2, 3, 0]\<rparr> ?vs ?q = Inl UnsupportedArity"
    using face_solver_dispatch[of "\<lparr>vertexIds = [0, 1, 2, 3, 0]\<rparr>" ?vs ?q] by simp
  have tri: "computeClosestPointOnFace \<lparr>vertexIds = [0, 1, 2]\<rparr> ?vs ?q = Inr (P3 1 0 1, Fin 2)"
    using face_solver_dispatch[of "\<lparr>vertexIds = [0, 1, 2]\<rparr>" ?vs ?q 0 1 2 "P3 0 0 0" "P3 1 0 1" "P3 0 1 0"]
      look r1 by simp
  from quad r2 five tri show ?thesis by blast
qed

text \<open>
  Claim C10. A mesh with at least one vertex and no face is accepted, no octree is built,
  and every query returns the all-NaN point.
\<close>

theorem no_faces_query_nan:
  assumes "getVertices m \<noteq> []" and "getFaces m = []"
  shows "\<exists>impl. ImplCtor m = Inr impl \<and> m_partitionedSpace impl = None
           \<and> (\<forall>tie q r. query tie impl q r = Inr \<lparr>x = NaN, y = NaN, z = NaN\<rparr>)"
  using assms
  by (simp add: ImplCtor_def minSpacePartitioningFaces_def query_def processMesh_def bindE_def
      Float3_n_def)

theorem no_faces_query_nan_witness:
  "\<exists>impl. ImplCtor \<lparr>getVertices = [P3 0 0 0], getFaces = []\<rparr> = Inr impl
      \<and> m_partitionedSpace impl = None
      \<and> (\<forall>tie q r. query tie impl q r = Inr \<lparr>x = NaN, y = NaN, z = NaN\<rparr>)"
  using no_faces_query_nan[of "\<lparr>getVertices = [P3 0 0 0], getFaces = []\<rparr>"] by simp

section \<open>Twenty coincident points in the octree\<close>

declare walkInsert.simps [simp del] walkInsertChildren.simps [simp del] visitNode.simps [simp del]

lemma getChildBounds_None:
  "childAt node i = None \<Longrightarrow> getChildBounds node i = childCube (m_bounds node) i"
  by (simp add: getChildBounds_def childCube_def)

lemma getChildBounds_Some:
  "childAt node i = Some c \<Longrightarrow> getChildBounds node i = m_bounds c"
  by (simp add: getChildBounds_def)

lemma childAt_noChildren: "m_children node = noChildren \<Longrightarrow> childAt node i = None"
proof -
  assume a: "m_children node = noChildren"
  have "i < 8 \<Longrightarrow> (noChildren :: 'a OctreeNode option list) ! i = None"
    by (simp add: noChildren_def nth_Cons split: nat.splits)
  with a show ?thesis by (simp add: childAt_def noChildren_def)
qed

lemma childIndices_nth: "i \<in> set childIndices \<Longrightarrow> i < length childIndices \<and> childIndices ! i = i"
  by (auto simp: childIndices_def)

lemma childAt_map:
  assumes "m_children node = map f childIndices" and "i \<in> set childIndices"
  shows "childAt node i = f i"
  using childIndices_nth[OF assms(2)] assms(1) by (simp add: childAt_def)

text \<open>The numbers of the scenario are binary32 values: the operations on them are exact.\<close>

lemma onGridE:
  assumes "onGrid lv v"
  obtains k :: int where "v = Fin (of_int k / 2 ^ (lv + 1))" and "k = - 1 \<or> k = 0 \<or> k = 1"
proof -
  from assms consider "v = Fin (- (1 / 2 ^ (lv + 1)))" | "v = Fin 0" | "v = Fin (1 / 2 ^ (lv + 1))"
    unfolding onGrid_def by blast
  then show thesis
  proof cases
    case 1 then show thesis by (intro that[of "- 1"]) simp_all
  next
    case 2 then show thesis by (intro that[of 0]) simp_all
  next
    case 3 then show thesis by (intro that[of 1]) simp_all
  qed
qed

lemma grid_minus_origin:
  assumes "\<bar>k\<bar> \<le> 3" and "n \<le> 149"
  shows "Fin (of_int k / 2 ^ n) - Fin 0 = Fin (of_int k / 2 ^ n)"
proof -
  from assms(1) have "\<bar>k\<bar> < 2 ^ 24" by simp
  from round32_dyadic[OF this assms(2)] show ?thesis by (simp add: minus_float_def)
qed

lemma grid_half:
  assumes "lv \<le> 100"
  shows "Fin (1 / 2 ^ (lv + 1)) * Fin (1/2) = Fin (1 / 2 ^ (lv + 2))"
proof -
  have "round32 (of_int 1 / 2 ^ (lv + 2)) = Fin (of_int 1 / 2 ^ (lv + 2))"
    using assms by (intro round32_dyadic) simp_all
  then show ?thesis by simp
qed

lemma grid_child_coordinate:
  assumes "lv \<le> 100" and "k = - 1 \<or> k = 0 \<or> k = 1" and "s = - 1 \<or> s = 1"
  shows "Fin (of_int k / 2 ^ (lv + 1)) + Fin (of_int s) * Fin (1 / 2 ^ (lv + 2))
           = Fin (of_int (2 * k + s) / 2 ^ (lv + 2))"
proof -
  have small: "\<bar>s\<bar> < 2 ^ 24" "\<bar>2 * k + s\<bar> < 2 ^ 24" using assms(2,3) by auto
  have n: "lv + 2 \<le> 149" using assms(1) by simp
  have "Fin (of_int s) * Fin (1 / 2 ^ (lv + 2)) = round32 (of_int s / 2 ^ (lv + 2))" by simp
  also have "\<dots> = Fin (of_int s / 2 ^ (lv + 2))" using small(1) n by (rule round32_dyadic)
  finally have prod: "Fin (of_int s) * Fin (1 / 2 ^ (lv + 2)) = Fin (of_int s / 2 ^ (lv + 2))" .
  have "of_int k / 2 ^ (lv + 1) + of_int s / 2 ^ (lv + 2) = (of_int (2 * k + s) / 2 ^ (lv + 2) :: real)"
    by (simp add: field_simps)
  then have "Fin (of_int k / 2 ^ (lv + 1)) + Fin (of_int s / 2 ^ (lv + 2))
               = round32 (of_int (2 * k + s) / 2 ^ (lv + 2))"
    by (simp only: plus_float.simps)
  also have "\<dots> = Fin (of_int (2 * k + s) / 2 ^ (lv + 2))" using small(2) n by (rule round32_dyadic)
  finally show ?thesis unfolding prod .
qed

lemma childCube_grid:
  assumes "holdsOrigin lv b"
  shows "\<exists>kx ky kz. (kx = - 1 \<or> kx = 0 \<or> kx = 1) \<and> (ky = - 1 \<or> ky = 0 \<or> ky = 1)
           \<and> (kz = - 1 \<or> kz = 0 \<or> kz = 1)
           \<and> b = gridCube (lv + 1) kx ky kz
           \<and> (\<forall>i. childCube b i = gridCube (lv + 2) (2 * kx + childSide i 1)
                                   (2 * ky + childSide i 2) (2 * kz + childSide i 4))"
proof -
  from assms have lv: "lv \<le> 100" and hw: "halfWidth b = Fin (1 / 2 ^ (lv + 1))"
    and g: "onGrid lv (x (center b))" "onGrid lv (y (center b))" "onGrid lv (z (center b))"
    by (simp_all add: holdsOrigin_def)
  from g(1) obtain kx :: int where kx: "x (center b) = Fin (of_int kx / 2 ^ (lv + 1))"
    "kx = - 1 \<or> kx = 0 \<or> kx = 1" by (rule onGridE)
  from g(2) obtain ky :: int where ky: "y (center b) = Fin (of_int ky / 2 ^ (lv + 1))"
    "ky = - 1 \<or> ky = 0 \<or> ky = 1" by (rule onGridE)
  from g(3) obtain kz :: int where kz: "z (center b) = Fin (of_int kz / 2 ^ (lv + 1))"
    "kz = - 1 \<or> kz = 0 \<or> kz = 1" by (rule onGridE)
  have c: "center b = \<lparr>x = Fin (of_int kx / 2 ^ (lv + 1)), y = Fin (of_int ky / 2 ^ (lv + 1)),
                      z = Fin (of_int kz / 2 ^ (lv + 1))\<rparr>"
    using kx(1) ky(1) kz(1) by (cases "center b") simp
  have b: "b = gridCube (lv + 1) kx ky kz"
    unfolding gridCube_def using c hw by (cases b) simp
  have coord: "Fin (of_int k / 2 ^ (lv + 1)) + (if P then Fin 1 else Fin (- 1)) * Fin (1 / 2 ^ (lv + 2))
           = Fin (of_int (2 * k + (if P then 1 else - 1)) / 2 ^ (lv + 2))"
    if "k = - 1 \<or> k = 0 \<or> k = 1" for k :: int and P
    using grid_child_coordinate[OF lv that, of "if P then 1 else - 1"] by (cases P) simp_all
  have "childCube b i = gridCube (lv + 2) (2 * kx + childSide i 1)
                                   (2 * ky + childSide i 2) (2 * kz + childSide i 4)" for i
    unfolding childCube_def Let_def hw grid_half[OF lv] c gridCube_def childSide_def
    by (simp only: Float3.simps AABCube.simps coord[OF kx(2)] coord[OF ky(2)] coord[OF kz(2)])
  with kx(2) ky(2) kz(2) b show ?thesis by blast
qed

lemma grid_hit:
  assumes "n \<le> 149" and "\<bar>kx\<bar> \<le> 3" and "\<bar>ky\<bar> \<le> 3" and "\<bar>kz\<bar> \<le> 3"
  shows "intersectPoint (gridCube n kx ky kz) origin
         \<longleftrightarrow> \<bar>kx\<bar> \<le> 1 \<and> \<bar>ky\<bar> \<le> 1 \<and> \<bar>kz\<bar> \<le> 1"
proof -
  have le: "\<bar>of_int k / 2 ^ n :: real\<bar> \<le> 1 / 2 ^ n \<longleftrightarrow> \<bar>k\<bar> \<le> 1" for k :: int
  proof -
    have "\<bar>of_int k / 2 ^ n :: real\<bar> = of_int \<bar>k\<bar> / 2 ^ n" by simp
    also have "\<dots> \<le> 1 / 2 ^ n \<longleftrightarrow> (of_int \<bar>k\<bar> :: real) \<le> 1"
      by (simp add: divide_le_cancel)
    also have "\<dots> \<longleftrightarrow> \<bar>k\<bar> \<le> 1" by linarith
    finally show ?thesis .
  qed
  show ?thesis
    unfolding intersectPoint_def Let_def origin_def Float3_n_def Float3_sub_def Float3_abs_def
      gridCube_def
    by (simp only: Float3.simps AABCube.simps grid_minus_origin[OF assms(2,1)]
        grid_minus_origin[OF assms(3,1)] grid_minus_origin[OF assms(4,1)] abs_float.simps
        less_eq_float.simps le)
qed

lemma holdsOrigin_gridCube:
  assumes "lv \<le> 100" and "\<bar>kx\<bar> \<le> 1" and "\<bar>ky\<bar> \<le> 1" and "\<bar>kz\<bar> \<le> 1"
  shows "holdsOrigin lv (gridCube (lv + 1) kx ky kz)"
proof -
  have grid: "onGrid lv (Fin (of_int m / 2 ^ (lv + 1)))" if "\<bar>m\<bar> \<le> 1" for m :: int
  proof -
    from that consider "m = - 1" | "m = 0" | "m = 1" by linarith
    then show ?thesis by cases (simp_all add: onGrid_def)
  qed
  show ?thesis
    unfolding holdsOrigin_def gridCube_def
    by (simp only: AABCube.simps Float3.simps assms(1) grid[OF assms(2)] grid[OF assms(3)]
        grid[OF assms(4)] simp_thms)
qed

lemma holdsOrigin_hit:
  assumes "holdsOrigin lv b"
  shows "intersectPoint b origin"
proof -
  from childCube_grid[OF assms] obtain kx ky kz where k: "kx = - 1 \<or> kx = 0 \<or> kx = 1"
    "ky = - 1 \<or> ky = 0 \<or> ky = 1" "kz = - 1 \<or> kz = 0 \<or> kz = 1"
    and b: "b = gridCube (lv + 1) kx ky kz" by blast
  from assms have lv: "lv \<le> 100" by (simp add: holdsOrigin_def)
  have "lv + 1 \<le> 149" "\<bar>kx\<bar> \<le> 3" "\<bar>ky\<bar> \<le> 3" "\<bar>kz\<bar> \<le> 3" using lv k by auto
  from grid_hit[OF this] k show ?thesis unfolding b by auto
qed

lemma toward_in: "toward b \<in> set childIndices"
  by (simp add: toward_def childIndices_def)

lemma toward_hit:
  assumes "holdsOrigin lv b"
  shows "intersectPoint (childCube b (toward b)) origin"
proof -
  from childCube_grid[OF assms] obtain kx ky kz where k: "kx = - 1 \<or> kx = 0 \<or> kx = 1"
    "ky = - 1 \<or> ky = 0 \<or> ky = 1" "kz = - 1 \<or> kz = 0 \<or> kz = 1"
    and b: "b = gridCube (lv + 1) kx ky kz"
    and ch: "\<And>i. childCube b i = gridCube (lv + 2) (2 * kx + childSide i 1)
                                   (2 * ky + childSide i 2) (2 * kz + childSide i 4)" by blast
  from assms have lv: "lv \<le> 100" by (simp add: holdsOrigin_def)
  have neg: "(Fin (of_int k / 2 ^ (lv + 1)) < Fin 0) = (k < 0)" for k :: int
    by (simp add: divide_less_0_iff)
  have tw: "toward b =
    (if kx < 0
     then (if ky < 0 then (if kz < 0 then 7 else 3) else (if kz < 0 then 5 else 1))
     else (if ky < 0 then (if kz < 0 then 6 else 2) else (if kz < 0 then 4 else 0)))"
    unfolding toward_def b gridCube_def by (simp only: Float3.simps AABCube.simps neg)
  let ?i = "toward b"
  have sx: "\<bar>2 * kx + childSide ?i 1\<bar> \<le> 1"
    using k(1) unfolding tw childSide_def by (cases "kx < 0"; cases "ky < 0"; cases "kz < 0") auto
  have sy: "\<bar>2 * ky + childSide ?i 2\<bar> \<le> 1"
    using k(2) unfolding tw childSide_def by (cases "kx < 0"; cases "ky < 0"; cases "kz < 0") auto
  have sz: "\<bar>2 * kz + childSide ?i 4\<bar> \<le> 1"
    using k(3) unfolding tw childSide_def by (cases "kx < 0"; cases "ky < 0"; cases "kz < 0") auto
  have "lv + 2 \<le> 149" using lv by simp
  moreover have "\<bar>2 * kx + childSide ?i 1\<bar> \<le> 3" "\<bar>2 * ky + childSide ?i 2\<bar> \<le> 3"
    "\<bar>2 * kz + childSide ?i 4\<bar> \<le> 3"
    using sx sy sz by linarith+
  ultimately have "intersectPoint (gridCube (lv + 2) (2 * kx + childSide ?i 1)
                                   (2 * ky + childSide ?i 2) (2 * kz + childSide ?i 4)) origin"
    using sx sy sz by (simp only: grid_hit simp_thms)
  then show ?thesis by (simp only: ch[of ?i])
qed

lemma childCube_holdsOrigin:
  assumes "holdsOrigin lv b" and "lv < 100" and "intersectPoint (childCube b i) origin"
  shows "holdsOrigin (Suc lv) (childCube b i)"
proof -
  from childCube_grid[OF assms(1)] obtain kx ky kz where k: "kx = - 1 \<or> kx = 0 \<or> kx = 1"
    "ky = - 1 \<or> ky = 0 \<or> ky = 1" "kz = - 1 \<or> kz = 0 \<or> kz = 1"
    and ch: "\<And>i. childCube b i = gridCube (lv + 2) (2 * kx + childSide i 1)
                                   (2 * ky + childSide i 2) (2 * kz + childSide i 4)" by blast
  let ?mx = "2 * kx + childSide i 1"
  let ?my = "2 * ky + childSide i 2"
  let ?mz = "2 * kz + childSide i 4"
  have side: "childSide i m = 1 \<or> childSide i m = - 1" for m by (simp add: childSide_def)
  have b3: "lv + 2 \<le> 149" "\<bar>?mx\<bar> \<le> 3" "\<bar>?my\<bar> \<le> 3" "\<bar>?mz\<bar> \<le> 3"
    using assms(2) k side[of 1] side[of 2] side[of 4] by auto
  from assms(3) have hit: "\<bar>?mx\<bar> \<le> 1 \<and> \<bar>?my\<bar> \<le> 1 \<and> \<bar>?mz\<bar> \<le> 1"
    unfolding ch[of i] grid_hit[OF b3] .
  have eq: "lv + 2 = Suc lv + 1" by simp
  show ?thesis
    unfolding ch[of i] eq using assms(2) hit by (intro holdsOrigin_gridCube) simp_all
qed

lemma originSlots_cong:
  assumes "\<And>i. i \<in> set childIndices \<Longrightarrow> intersectPoint (childCube b i) origin \<Longrightarrow> f i = g i"
  shows "originSlots b f = originSlots b g"
  unfolding originSlots_def by (rule map_cong) (simp_all add: assms)

lemma childAt_originSlots:
  assumes "m_children node = originSlots b cs" and "i \<in> set childIndices"
  shows "childAt node i = (if intersectPoint (childCube b i) origin then Some (cs i) else None)"
  using childAt_map[OF assms(1)[unfolded originSlots_def] assms(2)] .

lemma walkInsertChildren_origin:
  assumes "m_children node = noChildren
           \<or> (\<exists>cs. m_children node = originSlots (m_bounds node) cs
                \<and> (\<forall>i \<in> set childIndices. intersectPoint (childCube (m_bounds node) i) origin
                       \<longrightarrow> intersectPoint (m_bounds (cs i)) origin))"
  shows "walkInsertChildren intersectPoint md mf origin d node =
          OctreeNode (m_elements node)
            (originSlots (m_bounds node)
               (\<lambda>i. walkInsert intersectPoint md mf origin (d + 1)
                      (case childAt node i of
                         None \<Rightarrow> newOctreeNode (childCube (m_bounds node) i)
                       | Some c \<Rightarrow> c)))
            (m_bounds node) (m_isLeaf node)"
proof -
  let ?b = "m_bounds node"
  have slot: "(let childBounds = getChildBounds node i
               in if intersectPoint childBounds origin then
                    Some (walkInsert intersectPoint md mf origin (d + 1)
                            (case childAt node i of
                               None \<Rightarrow> newOctreeNode childBounds
                             | Some child \<Rightarrow> child))
                  else childAt node i)
             = (if intersectPoint (childCube ?b i) origin
                then Some (walkInsert intersectPoint md mf origin (d + 1)
                      (case childAt node i of
                         None \<Rightarrow> newOctreeNode (childCube ?b i)
                       | Some c \<Rightarrow> c))
                else None)"
    if i: "i \<in> set childIndices" for i
    using assms
  proof
    assume "m_children node = noChildren"
    then have "childAt node i = None" by (rule childAt_noChildren)
    then show ?thesis by (simp add: getChildBounds_None)
  next
    assume "\<exists>cs. m_children node = originSlots ?b cs
                \<and> (\<forall>i \<in> set childIndices. intersectPoint (childCube ?b i) origin
                       \<longrightarrow> intersectPoint (m_bounds (cs i)) origin)"
    then obtain cs where cs: "m_children node = originSlots ?b cs"
      and hit: "\<forall>i \<in> set childIndices. intersectPoint (childCube ?b i) origin
                       \<longrightarrow> intersectPoint (m_bounds (cs i)) origin" by blast
    note at = childAt_originSlots[OF cs i]
    show ?thesis
    proof (cases "intersectPoint (childCube ?b i) origin")
      case True
      with at have "childAt node i = Some (cs i)" by simp
      moreover from True hit i have "intersectPoint (m_bounds (cs i)) origin" by blast
      ultimately show ?thesis using True by (simp add: getChildBounds_Some)
    next
      case False
      with at have "childAt node i = None" by simp
      with False show ?thesis by (simp add: getChildBounds_None)
    qed
  qed
  show ?thesis
    unfolding originSlots_def
    by (subst walkInsertChildren.simps) (simp add: slot cong: map_cong)
qed

lemma walkInsert_leaf_append:
  assumes "m_isLeaf node" and "\<not> shouldSubdivide (length (m_elements node)) d"
  shows "walkInsert isect 100 (Fin 3) el d node =
           OctreeNode (m_elements node @ [el]) (m_children node) (m_bounds node) True"
  using assms by (subst walkInsert.simps) (auto simp: Let_def shouldSubdivide_def)

lemma walkInsert_internal:
  assumes "\<not> m_isLeaf node"
  shows "walkInsert isect md mf el d node = walkInsertChildren isect md mf el d node"
  using assms by (subst walkInsert.simps) simp

text \<open>A node whose children so far received \<open>j\<close> copies of the origin, all kept in leaves\<close>

lemma refill_step:
  assumes "\<not> shouldSubdivide j (d + 1)"
  shows "walkInsertChildren intersectPoint 100 (Fin 3) origin d
           (OctreeNode es
              (if j = 0 then noChildren
               else originSlots b (\<lambda>i. OctreeNode (replicate j origin) noChildren (childCube b i) True))
              b l)
         = OctreeNode es
              (originSlots b (\<lambda>i. OctreeNode (replicate (Suc j) origin) noChildren (childCube b i) True))
              b l"
proof -
  let ?leaf = "\<lambda>j i. OctreeNode (replicate j origin) noChildren (childCube b i) True :: Point OctreeNode"
  let ?node = "OctreeNode es (if j = 0 then noChildren else originSlots b (?leaf j)) b l"
  have pre: "m_children ?node = noChildren
           \<or> (\<exists>cs. m_children ?node = originSlots (m_bounds ?node) cs
                \<and> (\<forall>i \<in> set childIndices. intersectPoint (childCube (m_bounds ?node) i) origin
                       \<longrightarrow> intersectPoint (m_bounds (cs i)) origin))"
    by (cases "j = 0") auto
  have "originSlots b (\<lambda>i. walkInsert intersectPoint 100 (Fin 3) origin (d + 1)
                      (case childAt ?node i of
                         None \<Rightarrow> newOctreeNode (childCube b i)
                       | Some c \<Rightarrow> c))
        = originSlots b (?leaf (Suc j))"
  proof (rule originSlots_cong)
    fix i assume i: "i \<in> set childIndices" and hit: "intersectPoint (childCube b i) origin"
    show "walkInsert intersectPoint 100 (Fin 3) origin (d + 1)
                      (case childAt ?node i of
                         None \<Rightarrow> newOctreeNode (childCube b i)
                       | Some c \<Rightarrow> c) = ?leaf (Suc j) i"
    proof (cases "j = 0")
      case True
      then have "childAt ?node i = None" by (simp add: childAt_noChildren)
      then show ?thesis
        using assms True
        by (simp add: walkInsert_leaf_append newOctreeNode_def noChildren_def)
    next
      case False
      then have "childAt ?node i = Some (?leaf j i)"
        using childAt_originSlots[of ?node b "?leaf j" i] i hit by simp
      then show ?thesis
        using assms by (simp add: walkInsert_leaf_append replicate_append_same)
    qed
  qed
  then have eq: "(\<lambda>i. walkInsert intersectPoint 100 (Fin 3) origin (d + 1)
                      (case childAt ?node i of
                         None \<Rightarrow> newOctreeNode (childCube b i)
                       | Some c \<Rightarrow> c)) \<in> {f. originSlots b f = originSlots b (?leaf (Suc j))}"
    by simp
  have "walkInsertChildren intersectPoint 100 (Fin 3) origin d ?node
          = OctreeNode (m_elements ?node)
              (originSlots (m_bounds ?node)
                 (\<lambda>i. walkInsert intersectPoint 100 (Fin 3) origin (d + 1)
                        (case childAt ?node i of
                           None \<Rightarrow> newOctreeNode (childCube (m_bounds ?node) i)
                         | Some c \<Rightarrow> c)))
              (m_bounds ?node) (m_isLeaf ?node)"
    by (rule walkInsertChildren_origin[OF pre])
  also have "\<dots> = OctreeNode es
              (originSlots b
                 (\<lambda>i. walkInsert intersectPoint 100 (Fin 3) origin (d + 1)
                        (case childAt ?node i of
                           None \<Rightarrow> newOctreeNode (childCube b i)
                         | Some c \<Rightarrow> c)))
              b l"
    by (simp only: OctreeNode.sel)
  also have "\<dots> = OctreeNode es (originSlots b (?leaf (Suc j))) b l"
    using eq by (simp only: mem_Collect_eq)
  finally show ?thesis .
qed

lemma refill:
  assumes "\<forall>i<j. \<not> shouldSubdivide i (d + 1)"
  shows "((\<lambda>nd. walkInsertChildren intersectPoint 100 (Fin 3) origin d nd) ^^ j)
           (OctreeNode es noChildren b l)
         = OctreeNode es
              (if j = 0 then noChildren
               else originSlots b (\<lambda>i. OctreeNode (replicate j origin) noChildren (childCube b i) True))
              b l"
  using assms
proof (induction j)
  case 0
  show ?case by simp
next
  case (Suc j)
  then have "((\<lambda>nd. walkInsertChildren intersectPoint 100 (Fin 3) origin d nd) ^^ j)
           (OctreeNode es noChildren b l)
         = OctreeNode es
              (if j = 0 then noChildren
               else originSlots b (\<lambda>i. OctreeNode (replicate j origin) noChildren (childCube b i) True))
              b l" by simp
  moreover from Suc.prems have "\<not> shouldSubdivide j (d + 1)" by simp
  ultimately show ?case
    using refill_step[of j d es b l] by simp
qed

lemma uniformTree_holdsOrigin: "uniformTree lv k n node \<Longrightarrow> holdsOrigin lv (m_bounds node)"
  by (cases k) simp_all

lemma subdivide_leaf:
  assumes "uniformTree lv 0 n node" and "shouldSubdivide n d"
    and "\<forall>i \<le> n. \<not> shouldSubdivide i (d + 1)" and "lv < 100"
  shows "uniformTree lv (Suc 0) (Suc n) (walkInsert intersectPoint 100 (Fin 3) origin d node)"
proof -
  let ?b = "m_bounds node"
  let ?leaf = "\<lambda>j i. OctreeNode (replicate j origin) noChildren (childCube ?b i) True :: Point OctreeNode"
  from assms(1) have node: "node = OctreeNode (replicate n origin) noChildren ?b True"
    and hb: "holdsOrigin lv ?b"
    by (cases node; simp)+
  have less: "\<forall>i<n. \<not> shouldSubdivide i (d + 1)" and last: "\<not> shouldSubdivide n (d + 1)"
    using assms(3) by simp_all
  have pushed: "fold (\<lambda>el nd. walkInsertChildren intersectPoint 100 (Fin 3) el d nd)
                   (rev (replicate n origin)) (OctreeNode (replicate n origin) noChildren ?b False)
                = OctreeNode (replicate n origin)
                    (if n = 0 then noChildren else originSlots ?b (?leaf n)) ?b False"
    using refill[OF less, of "replicate n origin" ?b False]
    by (simp only: fold_replicate rev_replicate)
  have "walkInsert intersectPoint 100 (Fin 3) origin d node
          = walkInsertChildren intersectPoint 100 (Fin 3) origin d
              (OctreeNode [] (if n = 0 then noChildren else originSlots ?b (?leaf n)) ?b False)"
    using assms(2)
    apply (subst walkInsert.simps)
    apply (subst (1 2 3 4 5 6 7) node)
    apply (simp only: OctreeNode.sel pushed Let_def length_replicate shouldSubdivide_def if_True
             simp_thms)
    done
  also have "\<dots> = OctreeNode [] (originSlots ?b (?leaf (Suc n))) ?b False"
    by (rule refill_step[OF last])
  finally have res: "walkInsert intersectPoint 100 (Fin 3) origin d node
                       = OctreeNode [] (originSlots ?b (?leaf (Suc n))) ?b False" .
  have "uniformTree (Suc lv) 0 (Suc n) (?leaf (Suc n) i)"
    if "intersectPoint (childCube ?b i) origin" for i
    using childCube_holdsOrigin[OF hb assms(4) that] by simp
  then show ?thesis
    unfolding res using hb by (auto simp del: replicate.simps)
qed

lemma walkInsert_uniform:
  "uniformTree lv k n node \<Longrightarrow> int lv \<le> d \<Longrightarrow>
     (\<not> shouldSubdivide n (d + int k)
        \<longrightarrow> uniformTree lv k (Suc n) (walkInsert intersectPoint 100 (Fin 3) origin d node))
     \<and> (shouldSubdivide n (d + int k) \<and> (\<forall>i \<le> n. \<not> shouldSubdivide i (d + int k + 1))
        \<longrightarrow> uniformTree lv (Suc k) (Suc n) (walkInsert intersectPoint 100 (Fin 3) origin d node))"
proof (induction k arbitrary: d node lv)
  case 0
  have "uniformTree lv 0 (Suc n) (walkInsert intersectPoint 100 (Fin 3) origin d node)"
    if "\<not> shouldSubdivide n d"
  proof -
    from 0 that have "walkInsert intersectPoint 100 (Fin 3) origin d node
        = OctreeNode (m_elements node @ [origin]) (m_children node) (m_bounds node) True"
      by (intro walkInsert_leaf_append) simp_all
    with 0 show ?thesis by (simp add: replicate_append_same)
  qed
  moreover have "uniformTree lv (Suc 0) (Suc n) (walkInsert intersectPoint 100 (Fin 3) origin d node)"
    if "shouldSubdivide n d" "\<forall>i \<le> n. \<not> shouldSubdivide i (d + 1)"
  proof -
    from that(1) have "d < 100" by (simp add: shouldSubdivide_def)
    with 0(2) have "lv < 100" by simp
    with 0(1) that show ?thesis by (rule subdivide_leaf)
  qed
  ultimately show ?case by simp
next
  case (Suc k)
  let ?b = "m_bounds node"
  from Suc.prems obtain cs where nl: "\<not> m_isLeaf node" and el: "m_elements node = []"
    and hb: "holdsOrigin lv ?b" and ch: "m_children node = originSlots ?b cs"
    and sub: "\<forall>i \<in> set childIndices. intersectPoint (childCube ?b i) origin
                  \<longrightarrow> uniformTree (Suc lv) k n (cs i)"
    by auto
  from Suc.prems(2) have lvd: "int (Suc lv) \<le> d + 1" by simp
  let ?cs' = "\<lambda>i. walkInsert intersectPoint 100 (Fin 3) origin (d + 1)
                      (case childAt node i of
                         None \<Rightarrow> newOctreeNode (childCube ?b i)
                       | Some c \<Rightarrow> c)"
  have pre: "m_children node = noChildren
           \<or> (\<exists>cs. m_children node = originSlots ?b cs
                \<and> (\<forall>i \<in> set childIndices. intersectPoint (childCube ?b i) origin
                       \<longrightarrow> intersectPoint (m_bounds (cs i)) origin))"
    using ch sub uniformTree_holdsOrigin holdsOrigin_hit by blast
  have res: "walkInsert intersectPoint 100 (Fin 3) origin d node
               = OctreeNode [] (originSlots ?b ?cs') ?b False"
    using walkInsertChildren_origin[OF pre, of 100 "Fin 3" d] nl el
    by (simp add: walkInsert_internal)
  have child: "?cs' i = walkInsert intersectPoint 100 (Fin 3) origin (d + 1) (cs i)"
    if "i \<in> set childIndices" "intersectPoint (childCube ?b i) origin" for i
    using childAt_originSlots[OF ch that(1)] that(2) by simp
  have d: "d + 1 + int k = d + int (Suc k)" by simp
  have "uniformTree lv (Suc k) (Suc n) (walkInsert intersectPoint 100 (Fin 3) origin d node)"
    if "\<not> shouldSubdivide n (d + int (Suc k))"
    unfolding res using hb sub child that Suc.IH[OF _ lvd, unfolded d]
    by (auto simp del: of_nat_Suc)
  moreover have "uniformTree lv (Suc (Suc k)) (Suc n) (walkInsert intersectPoint 100 (Fin 3) origin d node)"
    if "shouldSubdivide n (d + int (Suc k))" "\<forall>i \<le> n. \<not> shouldSubdivide i (d + int (Suc k) + 1)"
    unfolding res using hb sub child that Suc.IH[OF _ lvd, unfolded d]
    by (auto simp del: of_nat_Suc)
  ultimately show ?case by blast
qed

lemma fold_same:
  assumes "\<And>v s. v \<in> set vs \<Longrightarrow> f v s = g s" and "\<And>s. g (g s) = g s" and "vs \<noteq> []"
  shows "fold f vs s = g s"
  using assms(1,3)
proof (induction vs arbitrary: s)
  case Nil
  then show ?case by simp
next
  case (Cons v vs)
  show ?case
  proof (cases "vs = []")
    case True
    with Cons.prems show ?thesis by simp
  next
    case False
    with Cons have "fold f vs (f v s) = g (f v s)" by simp
    with Cons.prems(1)[of v] show ?thesis by (simp add: assms(2))
  qed
qed

lemma map_filter_if_Some:
  "List.map_filter id (map (\<lambda>i. if P i then Some (f i) else None) vs) = map f (filter P vs)"
  by (induction vs) (simp_all add: List.map_filter_simps)

lemma presentChildren_originSlots:
  assumes "m_children node = originSlots b cs"
  shows "presentChildren node
           = map cs (filter (\<lambda>i. intersectPoint (childCube b i) origin) childIndices)"
  unfolding presentChildren_def assms originSlots_def by (rule map_filter_if_Some)

lemma visitNode_uniform:
  "uniformTree lv k n node \<Longrightarrow>
     visitNode node d (a, c) = (max a (d + int k), max c (int n))"
proof (induction k arbitrary: node d a c lv)
  case 0
  then show ?case by (subst visitNode.simps) simp
next
  case (Suc k)
  let ?b = "m_bounds node"
  from Suc.prems obtain cs where nl: "\<not> m_isLeaf node"
    and hb: "holdsOrigin lv ?b" and ch: "m_children node = originSlots ?b cs"
    and sub: "\<forall>i \<in> set childIndices. intersectPoint (childCube ?b i) origin
                  \<longrightarrow> uniformTree (Suc lv) k n (cs i)"
    by auto
  let ?hits = "filter (\<lambda>i. intersectPoint (childCube ?b i) origin) childIndices"
  let ?g = "\<lambda>st :: int \<times> int. (max (fst st) (d + 1 + int k), max (snd st) (int n))"
  have pc: "presentChildren node = map cs ?hits" by (rule presentChildren_originSlots[OF ch])
  have ne: "map cs ?hits \<noteq> []"
    using toward_in[of ?b] toward_hit[OF hb] by (auto simp: filter_empty_conv)
  have each: "visitNode child (d + 1) st = ?g st" if "child \<in> set (map cs ?hits)" for child st
  proof -
    from that sub have "uniformTree (Suc lv) k n child" by auto
    from Suc.IH[OF this, of "d + 1" "fst st" "snd st"] show ?thesis by simp
  qed
  have "visitNode node d (a, c)
          = fold (\<lambda>child st'. visitNode child (d + 1) st') (map cs ?hits) (a, c)"
    using nl pc by (subst visitNode.simps) simp
  also have "\<dots> = ?g (a, c)"
    by (rule fold_same[where g = ?g, OF each _ ne]) simp_all
  finally show ?case by simp
qed

lemma shouldSubdivide_iff:
  assumes "0 \<le> d" and "d \<le> 126" and "n \<le> 1000"
  shows "shouldSubdivide n d \<longleftrightarrow> 3 * (1 + d) < int n \<and> d < 100"
proof -
  have pos: "0 < 1 + real_of_int d" using assms(1) by linarith
  have cn: "round32 (real n) = Fin (real n)"
    using round32_int[of "int n"] assms(3) by simp
  have cd: "round32 (real_of_int (1 + d)) = Fin (real_of_int (1 + d))"
    using assms(1,2) by (intro round32_int) simp
  have ratio: "round32 (real n) / round32 (real_of_int (1 + d))
                 = round32 (real n / (1 + real_of_int d))"
    unfolding cn cd using pos by simp
  have three: "round32 3 = Fin 3" using round32_int[of 3] by simp
  have above: "round32 (385 / 128) = Fin (385 / 128)"
    using round32_dyadic[of 385 7] by simp
  have main: "Fin 3 < round32 (real n / (1 + real_of_int d)) \<longleftrightarrow> 3 * (1 + d) < int n"
  proof
    assume lt: "Fin 3 < round32 (real n / (1 + real_of_int d))"
    show "3 * (1 + d) < int n"
    proof (rule ccontr)
      assume "\<not> 3 * (1 + d) < int n"
      then have "int n \<le> 3 * (1 + d)" by simp
      then have "real_of_int (int n) \<le> real_of_int (3 * (1 + d))" by (simp only: of_int_le_iff)
      then have "real n \<le> 3 * (1 + real_of_int d)" by simp
      then have "real n / (1 + real_of_int d) \<le> 3" using pos by (simp add: pos_divide_le_eq)
      from round32_mono[OF this] have "round32 (real n / (1 + real_of_int d)) \<le> Fin 3"
        by (simp only: three)
      with lt show False by (cases "round32 (real n / (1 + real_of_int d))") simp_all
    qed
  next
    assume "3 * (1 + d) < int n"
    then have "3 * (1 + d) + 1 \<le> int n" by simp
    then have "real_of_int (3 * (1 + d) + 1) \<le> real_of_int (int n)" by (simp only: of_int_le_iff)
    then have "3 * (1 + real_of_int d) + 1 \<le> real n" by simp
    moreover have "(1 + real_of_int d) * (1 / 128) \<le> 1" using assms(2) by simp
    ultimately have "(385 / 128) * (1 + real_of_int d) \<le> real n" by (simp add: algebra_simps)
    then have "385 / 128 \<le> real n / (1 + real_of_int d)" using pos by (simp add: pos_le_divide_eq)
    from round32_mono[OF this] have "Fin (385 / 128) \<le> round32 (real n / (1 + real_of_int d))"
      by (simp only: above)
    then show "Fin 3 < round32 (real n / (1 + real_of_int d))"
      by (cases "round32 (real n / (1 + real_of_int d))") simp_all
  qed
  show ?thesis unfolding shouldSubdivide_def ratio main by (rule refl)
qed

lemma testRoot_uniform: "uniformTree 0 0 0 testRoot"
  by (simp add: testRoot_def newOctreeNode_def noChildren_def holdsOrigin_def onGrid_def
      Float3_n_def origin_def)

lemma insert_uniform:
  "m \<le> 299 \<Longrightarrow>
     uniformTree 0 ((m - 2) div 3) m
       (((\<lambda>node. insert origin intersectPoint 100 (Fin 3) node) ^^ m) testRoot)"
proof (induction m)
  case 0
  show ?case using testRoot_uniform by simp
next
  case (Suc m)
  let ?k = "(m - 2) div 3"
  let ?t = "((\<lambda>node. insert origin intersectPoint 100 (Fin 3) node) ^^ m) testRoot"
  from Suc have ih: "uniformTree 0 ?k m ?t" by simp
  have "int 0 \<le> 0" by simp
  note step = walkInsert_uniform[OF ih this]
  have dep: "(0::int) \<le> 0 + int ?k" "(0::int) \<le> 0 + int ?k + 1" by simp_all
  have bound: "0 + int ?k \<le> 126" "0 + int ?k + 1 \<le> 126" "m \<le> 1000"
    using Suc.prems by simp_all
  have iff0: "shouldSubdivide m (0 + int ?k) \<longleftrightarrow> 3 * (1 + (0 + int ?k)) < int m \<and> 0 + int ?k < 100"
    by (rule shouldSubdivide_iff[OF dep(1) bound(1,3)])
  have iff1: "shouldSubdivide i (0 + int ?k + 1)
                \<longleftrightarrow> 3 * (1 + (0 + int ?k + 1)) < int i \<and> 0 + int ?k + 1 < 100" if "i \<le> m" for i
    using that bound(3) by (intro shouldSubdivide_iff[OF dep(2) bound(2)]) simp
  show ?case
  proof (cases "shouldSubdivide m (0 + int ?k)")
    case False
    with step have "uniformTree 0 ?k (Suc m) (walkInsert intersectPoint 100 (Fin 3) origin 0 ?t)"
      by blast
    moreover from False Suc.prems have "(Suc m - 2) div 3 = ?k"
      unfolding iff0 by (simp; presburger)
    ultimately show ?thesis by (simp add: insert_def)
  next
    case True
    then have m: "3 * (1 + int ?k) < int m" unfolding iff0 by simp
    have "\<not> shouldSubdivide i (0 + int ?k + 1)" if "i \<le> m" for i
      unfolding iff1[OF that] using that by (simp; presburger)
    then have "\<forall>i \<le> m. \<not> shouldSubdivide i (0 + int ?k + 1)" by blast
    with True step
    have "uniformTree 0 (Suc ?k) (Suc m) (walkInsert intersectPoint 100 (Fin 3) origin 0 ?t)"
      by blast
    moreover from m have "(Suc m - 2) div 3 = Suc ?k" by presburger
    ultimately show ?thesis by (simp add: insert_def)
  qed
qed

text \<open>
  Claim C8. Twenty insertions of the origin into a root cube centred at the origin with
  half-width 0.5, with the point-in-cube test, \<open>maxDepth = 100\<close> and \<open>maxFill = 3\<close>, give a
  tree on which the test's traversal finds the deepest leaf at depth 6 and the fullest leaf
  with 20 points; at depth 6 the ratio \<open>20 / (1 + 6)\<close> does not exceed 3. After 19
  insertions the deepest leaf is at depth 5.
\<close>

theorem twenty_coincident_points:
  "visitNode (((\<lambda>node. insert origin intersectPoint 100 (Fin 3) node) ^^ 20) testRoot) 0 (0, 0)
     = (6, 20)
   \<and> \<not> Fin 3 < Fin 20 / Fin (1 + 6)
   \<and> visitNode (((\<lambda>node. insert origin intersectPoint 100 (Fin 3) node) ^^ 19) testRoot) 0 (0, 0)
     = (5, 19)"
proof -
  have a: "uniformTree 0 6 20 (((\<lambda>node. insert origin intersectPoint 100 (Fin 3) node) ^^ 20) testRoot)"
    using insert_uniform[of 20] by simp
  have b: "uniformTree 0 5 19 (((\<lambda>node. insert origin intersectPoint 100 (Fin 3) node) ^^ 19) testRoot)"
    using insert_uniform[of 19] by simp
  have c: "\<not> Fin 3 < Fin 20 / Fin (1 + 6)"
    by (simp add: round32_eval)
  show ?thesis
    using visitNode_uniform[OF a, of 0 0 0] visitNode_uniform[OF b, of 0 0 0] c by simp
qed

end
